theory Spec2Isabelle
  imports Main "HOL-Library.Word"
begin

unbundle bit_operations_syntax

section \<open>The handle-indexed object pool of \<^verbatim>\<open>freelist.h\<close>\<close>

text \<open>
  \<^verbatim>\<open>freelist_t<T>\<close> keeps three heap arrays of \<^verbatim>\<open>_max_objects\<close> cells: the values
  (\<^verbatim>\<open>_objects\<close>, raw storage in which values are constructed in place), the handle of each
  dense position (\<^verbatim>\<open>_object_ids\<close>) and the slot table (\<^verbatim>\<open>_indices\<close>).
  The arrays are lists here. A cell that \<^verbatim>\<open>new\<close> leaves indeterminate, or storage that
  holds no constructed value, is \<open>None\<close>. Every array access of the source is written with
  its bounds: an access outside the array and a read of an indeterminate cell are undefined
  behaviour in C++, and are error results of the model, as is a failed \<^verbatim>\<open>assert\<close>
  (assertions are taken as compiled in). An operation that ends in an error result has no
  successor state. \<^verbatim>\<open>size_t\<close> counters are natural numbers, and the casts to
  \<^verbatim>\<open>uint16_t\<close> and \<^verbatim>\<open>uint32_t\<close> are written out. Values of \<^verbatim>\<open>T\<close> are copied and
  moved as plain values.
\<close>

type_synonym u16 = "16 word"
type_synonym u32 = "32 word"

datatype error = AssertionFailed | OutOfBounds | Indeterminate

definition index_mask :: u16 where
  "index_mask = 0xFFFF"

definition tombstone :: u16 where
  "tombstone = 0xFFFF"

definition new_object_id_add :: u32 where
  "new_object_id_add = 0x10000"

text \<open>\<^verbatim>\<open>struct index_t { uint32_t id; uint16_t index; uint16_t next; }\<close>. The constructor
  never writes \<^verbatim>\<open>index\<close>, so that field alone can be indeterminate.\<close>

record index_t =
  id_val :: u32
  index :: "u16 option"
  next_slot :: u16

record 'a freelist_t =
  num_objects :: nat
  max_objects :: nat
  cap_objects :: nat
  objects :: "'a option list"
  object_ids :: "u32 option list"
  indices :: "index_t list"
  enqueue :: u16

text \<open>The expression \<^verbatim>\<open>id & index_mask\<close>, used as an array subscript.\<close>

definition slot_of :: "u32 \<Rightarrow> nat" where
  "slot_of i = unat (i AND ucast index_mask)"

subsection \<open>Constructors\<close>

text \<open>\<^verbatim>\<open>freelist_t()\<close>: no storage.\<close>

definition freelist_empty :: "'a freelist_t" where
  "freelist_empty =
     \<lparr>num_objects = 0, max_objects = 0, cap_objects = 0, objects = [], object_ids = [],
      indices = [], enqueue = 0\<rparr>"

text \<open>The body of \<^verbatim>\<open>freelist_t(size_t max_objects)\<close> after its assertion: the three
  allocations and the loop that writes \<^verbatim>\<open>id\<close> and \<^verbatim>\<open>next\<close> of every slot.\<close>

definition init_index :: "nat \<Rightarrow> index_t" where
  "init_index i = \<lparr>id_val = of_nat i, index = None, next_slot = of_nat (i + 1)\<rparr>"

definition init_pool :: "nat \<Rightarrow> 'a freelist_t" where
  "init_pool cap =
     \<lparr>num_objects = 0, max_objects = cap, cap_objects = cap,
      objects = replicate cap None, object_ids = replicate cap None,
      indices = map init_index [0..<cap], enqueue = 0\<rparr>"

definition freelist_new :: "nat \<Rightarrow> error + 'a freelist_t" where
  "freelist_new cap = (if cap < 0xFFFF then Inr (init_pool cap) else Inl AssertionFailed)"

subsection \<open>Swap and move\<close>

text \<open>\<^verbatim>\<open>swap\<close> exchanges the seven members of two distinct pools; the result is the pair
  (this, other) afterwards.\<close>

definition swap_fl :: "'a freelist_t \<Rightarrow> 'a freelist_t \<Rightarrow> 'a freelist_t \<times> 'a freelist_t" where
  "swap_fl this other =
     (this\<lparr>num_objects := num_objects other, max_objects := max_objects other,
            cap_objects := cap_objects other, objects := objects other,
            object_ids := object_ids other, indices := indices other,
            enqueue := enqueue other\<rparr>,
      other\<lparr>num_objects := num_objects this, max_objects := max_objects this,
             cap_objects := cap_objects this, objects := objects this,
             object_ids := object_ids this, indices := indices this,
             enqueue := enqueue this\<rparr>)"

text \<open>\<^verbatim>\<open>freelist_t(freelist_t&& other)\<close>: delegate to the default constructor, then swap.
  The result is (the new pool, the source afterwards).\<close>

definition move_construct :: "'a freelist_t \<Rightarrow> 'a freelist_t \<times> 'a freelist_t" where
  "move_construct other = swap_fl freelist_empty other"

text \<open>\<^verbatim>\<open>operator=(freelist_t&& other)\<close> for \<^verbatim>\<open>this != &other\<close>: the two pools are
  distinct objects, given as two values. The result is (destination, source) afterwards.\<close>

definition move_assign :: "'a freelist_t \<Rightarrow> 'a freelist_t \<Rightarrow> 'a freelist_t \<times> 'a freelist_t" where
  "move_assign this other = swap_fl this other"

subsection \<open>Handle validation and lookup\<close>

text \<open>\<^verbatim>\<open>contains\<close>: \<^verbatim>\<open>in.id == id && in.index != tombstone\<close>, where \<^verbatim>\<open>&&\<close> reads
  \<^verbatim>\<open>in.index\<close> only when the ids agree.\<close>

definition contains :: "'a freelist_t \<Rightarrow> u32 \<Rightarrow> error + bool" where
  "contains fl i =
     (if \<not> slot_of i < length (indices fl) then Inl OutOfBounds
      else let e = indices fl ! slot_of i in
        if id_val e \<noteq> i then Inr False
        else (case index e of None \<Rightarrow> Inl Indeterminate | Some ix \<Rightarrow> Inr (ix \<noteq> tombstone)))"

text \<open>\<^verbatim>\<open>operator[]\<close>, read through: the value at the slot's dense position.\<close>

definition lookup :: "'a freelist_t \<Rightarrow> u32 \<Rightarrow> error + 'a" where
  "lookup fl i =
     (if \<not> slot_of i < length (indices fl) then Inl OutOfBounds
      else case index (indices fl ! slot_of i) of
        None \<Rightarrow> Inl Indeterminate
      | Some ix \<Rightarrow>
          if \<not> unat ix < length (objects fl) then Inl OutOfBounds
          else (case objects fl ! unat ix of None \<Rightarrow> Inl Indeterminate | Some v \<Rightarrow> Inr v))"

subsection \<open>Insertion\<close>

text \<open>\<^verbatim>\<open>insert_alloc\<close> returns the pointer \<^verbatim>\<open>in\<close>; the model returns the slot number it
  points to, with the pool as updated.\<close>

definition insert_alloc :: "'a freelist_t \<Rightarrow> error + ('a freelist_t \<times> nat)" where
  "insert_alloc fl =
     (if \<not> num_objects fl \<le> max_objects fl then Inl AssertionFailed
      else let s = unat (enqueue fl) in
        if \<not> s < length (indices fl) then Inl OutOfBounds
        else let e = indices fl ! s;
                 ix = (of_nat (num_objects fl) :: u16);
                 e' = e\<lparr>id_val := id_val e + new_object_id_add, index := Some ix\<rparr>
             in if \<not> unat ix < length (object_ids fl) then Inl OutOfBounds
                else Inr (fl\<lparr>enqueue := next_slot e,
                             indices := (indices fl)[s := e'],
                             num_objects := num_objects fl + 1,
                             object_ids := (object_ids fl)[unat ix := Some (id_val e')]\<rparr>, s))"

text \<open>\<^verbatim>\<open>T* o = _objects + in->index; new (o) T(...)\<close> for the slot \<open>s\<close> that
  \<^verbatim>\<open>insert_alloc\<close> returned.\<close>

definition construct_at :: "'a freelist_t \<Rightarrow> nat \<Rightarrow> 'a \<Rightarrow> error + 'a freelist_t" where
  "construct_at fl s v =
     (case index (indices fl ! s) of
        None \<Rightarrow> Inl Indeterminate
      | Some ix \<Rightarrow>
          if \<not> unat ix < length (objects fl) then Inl OutOfBounds
          else Inr (fl\<lparr>objects := (objects fl)[unat ix := Some v]\<rparr>))"

text \<open>\<^verbatim>\<open>emplace\<close> returns \<^verbatim>\<open>in->id\<close>. The value \<open>v\<close> is the one its arguments
  construct.\<close>

definition emplace :: "'a freelist_t \<Rightarrow> 'a \<Rightarrow> error + ('a freelist_t \<times> u32)" where
  "emplace fl v =
     (case insert_alloc fl of
        Inl err \<Rightarrow> Inl err
      | Inr (fl1, s) \<Rightarrow>
          (case construct_at fl1 s v of
             Inl err \<Rightarrow> Inl err
           | Inr fl2 \<Rightarrow> Inr (fl2, id_val (indices fl2 ! s))))"

text \<open>Both overloads of \<^verbatim>\<open>insert\<close> return \<^verbatim>\<open>o->id\<close>, where \<^verbatim>\<open>o\<close> is the \<^verbatim>\<open>T*\<close> of
  the value just constructed: the member \<^verbatim>\<open>id\<close> of the stored value, which the template
  requires \<^verbatim>\<open>T\<close> to have. That member is the parameter \<open>obj_id\<close>.\<close>

definition insert_fl :: "('a \<Rightarrow> u32) \<Rightarrow> 'a freelist_t \<Rightarrow> 'a \<Rightarrow> error + ('a freelist_t \<times> u32)" where
  "insert_fl obj_id fl v =
     (case insert_alloc fl of
        Inl err \<Rightarrow> Inl err
      | Inr (fl1, s) \<Rightarrow>
          (case construct_at fl1 s v of
             Inl err \<Rightarrow> Inl err
           | Inr fl2 \<Rightarrow> Inr (fl2, obj_id v)))"

subsection \<open>Removal\<close>

text \<open>\<^verbatim>\<open>erase\<close>, statement by statement. \<open>p\<close> is \<^verbatim>\<open>in->index\<close>, \<open>n\<close> the decremented
  \<^verbatim>\<open>_num_objects\<close>; with \<^verbatim>\<open>_num_objects == 0\<close> the decrement wraps to \<^verbatim>\<open>SIZE_MAX\<close> and
  \<^verbatim>\<open>last\<close> lies outside the storage.\<close>

definition erase :: "'a freelist_t \<Rightarrow> u32 \<Rightarrow> error + 'a freelist_t" where
  "erase fl i =
     (case contains fl i of
        Inl err \<Rightarrow> Inl err
      | Inr False \<Rightarrow> Inl AssertionFailed
      | Inr True \<Rightarrow>
          let s = slot_of i in
          (case index (indices fl ! s) of
             None \<Rightarrow> Inl Indeterminate
           | Some ix \<Rightarrow>
               let p = unat ix in
               if num_objects fl = 0 then Inl OutOfBounds
               else let n = num_objects fl - 1 in
                 if \<not> (p < length (objects fl) \<and> n < length (objects fl)) then Inl OutOfBounds
                 else (case (objects fl ! p, objects fl ! n) of
                    (Some _, Some lastv) \<Rightarrow>
                      if \<not> (p < length (object_ids fl) \<and> n < length (object_ids fl))
                      then Inl OutOfBounds
                      else (case object_ids fl ! n of
                         None \<Rightarrow> Inl Indeterminate
                       | Some lid \<Rightarrow>
                           let m = slot_of lid in
                           if \<not> m < length (indices fl) then Inl OutOfBounds
                           else
                             let objs = ((objects fl)[p := Some lastv])[n := None];
                                 oids = (object_ids fl)[p := Some lid];
                                 inds1 = (indices fl)[m := (indices fl ! m)\<lparr>index := Some ix\<rparr>];
                                 inds2 = inds1[s := (inds1 ! s)\<lparr>index := Some tombstone\<rparr>];
                                 inds3 = inds2[s := (inds2 ! s)\<lparr>next_slot := enqueue fl\<rparr>]
                             in Inr (fl\<lparr>num_objects := n, objects := objs, object_ids := oids,
                                         indices := inds3, enqueue := ucast (i AND ucast index_mask)\<rparr>))
                  | _ \<Rightarrow> Inl Indeterminate)))"

subsection \<open>Iteration\<close>

text \<open>An iterator is a pointer into \<^verbatim>\<open>_object_ids\<close>: here the position it points to.
  \<open>deref\<close> is \<^verbatim>\<open>operator*\<close>, \<open>incr\<close> is \<^verbatim>\<open>operator++\<close>, \<open>differs\<close> is
  \<^verbatim>\<open>operator!=\<close>.\<close>

definition begin_it :: "'a freelist_t \<Rightarrow> nat" where
  "begin_it fl = 0"

definition end_it :: "'a freelist_t \<Rightarrow> nat" where
  "end_it fl = num_objects fl"

definition incr :: "nat \<Rightarrow> nat" where
  "incr it = it + 1"

definition differs :: "nat \<Rightarrow> nat \<Rightarrow> bool" where
  "differs it other = (it \<noteq> other)"

definition deref :: "'a freelist_t \<Rightarrow> nat \<Rightarrow> error + u32" where
  "deref fl it =
     (if \<not> it < length (object_ids fl) then Inl OutOfBounds
      else case object_ids fl ! it of None \<Rightarrow> Inl Indeterminate | Some h \<Rightarrow> Inr h)"

text \<open>The loop \<^verbatim>\<open>for (it = begin(); it != end(); ++it) visit(*it)\<close>, collecting what it
  visits. It stops with an error as soon as a dereference leaves the array.\<close>

function traverse :: "'a freelist_t \<Rightarrow> nat \<Rightarrow> nat \<Rightarrow> error + u32 list" where
  "traverse fl it e =
     (if differs it e then
        (if \<not> it < length (object_ids fl) then Inl OutOfBounds
         else case deref fl it of
           Inl err \<Rightarrow> Inl err
         | Inr h \<Rightarrow> (case traverse fl (incr it) e of Inl err \<Rightarrow> Inl err | Inr hs \<Rightarrow> Inr (h # hs)))
      else Inr [])"
  by pat_completeness auto
termination
  by (relation "measure (\<lambda>(fl, it, e). length (object_ids fl) - it)") (auto simp: incr_def)

definition handles :: "'a freelist_t \<Rightarrow> error + u32 list" where
  "handles fl = traverse fl (begin_it fl) (end_it fl)"

subsection \<open>Sequences of operations\<close>

datatype 'a operation = Insert 'a | Emplace 'a | Erase u32

fun step :: "('a \<Rightarrow> u32) \<Rightarrow> 'a freelist_t \<Rightarrow> 'a operation \<Rightarrow> error + 'a freelist_t" where
  "step obj_id fl (Insert v) =
     (case insert_fl obj_id fl v of Inl err \<Rightarrow> Inl err | Inr (fl', h) \<Rightarrow> Inr fl')"
| "step obj_id fl (Emplace v) =
     (case emplace fl v of Inl err \<Rightarrow> Inl err | Inr (fl', h) \<Rightarrow> Inr fl')"
| "step obj_id fl (Erase h) = erase fl h"

fun run :: "('a \<Rightarrow> u32) \<Rightarrow> 'a freelist_t \<Rightarrow> 'a operation list \<Rightarrow> error + 'a freelist_t" where
  "run obj_id fl [] = Inr fl"
| "run obj_id fl (x # xs) =
     (case step obj_id fl x of Inl err \<Rightarrow> Inl err | Inr fl' \<Rightarrow> run obj_id fl' xs)"

text \<open>A pool is reachable when a sequence of operations, none of which fails, leads to it
  from a freshly constructed pool.\<close>

definition reachable :: "('a \<Rightarrow> u32) \<Rightarrow> nat \<Rightarrow> 'a operation list \<Rightarrow> 'a freelist_t \<Rightarrow> bool" where
  "reachable obj_id c ops fl =
     (case freelist_new c of Inl err \<Rightarrow> False | Inr fl0 \<Rightarrow> run obj_id fl0 ops = Inr fl)"

text \<open>Counting how often a run takes a given slot from the free list: every \<^verbatim>\<open>insert\<close>
  and \<^verbatim>\<open>emplace\<close> takes the slot at \<^verbatim>\<open>_enqueue\<close>, and bumps its id by
  \<^verbatim>\<open>new_object_id_add\<close>.\<close>

fun is_alloc :: "'a operation \<Rightarrow> bool" where
  "is_alloc (Insert v) = True"
| "is_alloc (Emplace v) = True"
| "is_alloc (Erase h) = False"

fun reuses :: "('a \<Rightarrow> u32) \<Rightarrow> nat \<Rightarrow> 'a freelist_t \<Rightarrow> 'a operation list \<Rightarrow> nat" where
  "reuses obj_id s fl [] = 0"
| "reuses obj_id s fl (x # xs) =
     (case step obj_id fl x of
        Inl err \<Rightarrow> 0
      | Inr fl' \<Rightarrow>
          (if is_alloc x \<and> unat (enqueue fl) = s then 1 else 0) + reuses obj_id s fl' xs)"

text \<open>A test driver: \<open>k\<close> rounds of erasing the current occupant \<open>h\<close> of a slot and
  emplacing again, which hands out the same slot with the next generation.\<close>

fun churn :: "u32 \<Rightarrow> 'a \<Rightarrow> nat \<Rightarrow> 'a operation list" where
  "churn h v 0 = []"
| "churn h v (Suc k) = Erase h # Emplace v # churn (h + new_object_id_add) v k"

text \<open>A test fixture: the full pool of capacity 1 whose slot 0 holds \<open>v\<close> under the id
  \<open>g\<close>, as \<^verbatim>\<open>emplace\<close> leaves it.\<close>

definition one_slot_pool :: "u32 \<Rightarrow> 'a \<Rightarrow> 'a freelist_t" where
  "one_slot_pool g v =
     \<lparr>num_objects = 1, max_objects = 1, cap_objects = 1, objects = [Some v],
      object_ids = [Some g], indices = [\<lparr>id_val = g, index = Some 0, next_slot = 1\<rparr>],
      enqueue = 1\<rparr>"

subsection \<open>The structural invariant\<close>

text \<open>The free list as the source threads it: \<open>chain inds a xs b\<close> says that following
  \<^verbatim>\<open>next\<close> from slot \<open>a\<close> visits the slots \<open>xs\<close>, all inside the table, and then
  arrives at \<open>b\<close>.\<close>

fun chain :: "index_t list \<Rightarrow> nat \<Rightarrow> nat list \<Rightarrow> nat \<Rightarrow> bool" where
  "chain inds a [] b = (a = b)"
| "chain inds a (x # xs) b =
     (a = x \<and> x < length inds \<and> chain inds (unat (next_slot (inds ! x))) xs b)"

text \<open>A slot is free when its dense position is the tombstone or was never written.\<close>

definition is_free :: "index_t \<Rightarrow> bool" where
  "is_free e = (index e = None \<or> index e = Some tombstone)"

text \<open>Dense position \<open>p\<close> holds a value, and its handle is the id of a slot that points
  back to \<open>p\<close>.\<close>

definition dense_ok :: "'a freelist_t \<Rightarrow> nat \<Rightarrow> bool" where
  "dense_ok fl p =
     (case object_ids fl ! p of
        None \<Rightarrow> False
      | Some h \<Rightarrow>
          slot_of h < max_objects fl \<and> id_val (indices fl ! slot_of h) = h \<and>
          index (indices fl ! slot_of h) = Some (of_nat p) \<and> objects fl ! p \<noteq> None)"

text \<open>Slot \<open>s\<close> keeps its own number in the low 16 bits of its id; a slot never allocated
  still has its initial id; an occupied slot points below \<^verbatim>\<open>_num_objects\<close>, at a dense
  position that carries its id.\<close>

definition slot_ok :: "'a freelist_t \<Rightarrow> nat \<Rightarrow> bool" where
  "slot_ok fl s =
     (slot_of (id_val (indices fl ! s)) = s \<and>
      (case index (indices fl ! s) of
         None \<Rightarrow> id_val (indices fl ! s) = of_nat s
       | Some ix \<Rightarrow>
           ix = tombstone \<or>
           (unat ix < num_objects fl \<and> object_ids fl ! unat ix = Some (id_val (indices fl ! s)))))"

text \<open>The free list from \<^verbatim>\<open>_enqueue\<close> visits the slots \<open>fs\<close>, each once and each free,
  as many as there are unused positions, and ends at \<^verbatim>\<open>_max_objects\<close>.\<close>

definition free_ok :: "'a freelist_t \<Rightarrow> nat list \<Rightarrow> bool" where
  "free_ok fl fs =
     (chain (indices fl) (unat (enqueue fl)) fs (max_objects fl) \<and> distinct fs \<and>
      length fs + num_objects fl = max_objects fl \<and>
      (\<forall>s\<in>set fs. is_free (indices fl ! s)))"

definition wf :: "'a freelist_t \<Rightarrow> bool" where
  "wf fl =
     (max_objects fl < 65535 \<and>
      length (indices fl) = max_objects fl \<and> length (object_ids fl) = max_objects fl \<and>
      length (objects fl) = max_objects fl \<and>
      (\<forall>p<num_objects fl. dense_ok fl p) \<and> (\<forall>s<max_objects fl. slot_ok fl s) \<and>
      (\<exists>fs. free_ok fl fs))"

section \<open>Machine arithmetic of handles\<close>

lemma mask16: "(ucast index_mask :: u32) = mask 16"
  by (simp add: index_mask_def mask_eq_exp_minus_1)

lemma slot_of_mod: "slot_of h = unat h mod 65536"
proof -
  have "slot_of h = unat (take_bit 16 h)"
    by (simp only: slot_of_def mask16 take_bit_eq_mask)
  also have "\<dots> = take_bit 16 (unat h)"
    by (simp only: unsigned_take_bit_eq)
  also have "\<dots> = unat h mod 65536"
    by (simp add: take_bit_eq_mod)
  finally show ?thesis .
qed

lemma slot_of_lt: "slot_of h < 65536"
  by (simp add: slot_of_mod)

lemma slot_of_add: "slot_of (h + new_object_id_add) = slot_of h"
proof -
  have "unat (h + 0x10000) mod 65536 = ((unat h + 65536) mod 4294967296) mod 65536"
    by (simp add: unat_word_ariths)
  also have "\<dots> = (unat h + 65536) mod 65536"
    by (rule mod_mod_cancel) simp
  also have "\<dots> = unat h mod 65536"
    by simp
  finally show ?thesis
    by (simp add: slot_of_mod new_object_id_add_def)
qed

lemma add_neq: "h + new_object_id_add \<noteq> h"
  by (simp add: new_object_id_add_def)

lemma unat_of_nat16: "n < 65536 \<Longrightarrow> unat (of_nat n :: u16) = n"
  by (simp add: unat_of_nat take_bit_nat_eq_self)

lemma of_nat_neq_tomb: "n < 65535 \<Longrightarrow> (of_nat n :: u16) \<noteq> tombstone"
proof
  assume a: "n < 65535" and b: "(of_nat n :: u16) = tombstone"
  from b have "unat (of_nat n :: u16) = unat tombstone" by simp
  with a show False by (simp add: unat_of_nat16 tombstone_def)
qed

lemma slot_of_of_nat: "i < 65536 \<Longrightarrow> slot_of (of_nat i) = i"
  by (simp add: slot_of_mod unat_of_nat take_bit_eq_mod)

lemma unat_ucast_slot: "unat (ucast (i AND ucast index_mask) :: u16) = slot_of i"
proof -
  have "unat (ucast (take_bit 16 i) :: u16) = take_bit 16 (unat (take_bit 16 i))"
    by (simp add: unsigned_ucast_eq)
  also have "\<dots> = take_bit 16 (take_bit 16 (unat i))"
    by (simp only: unsigned_take_bit_eq)
  also have "\<dots> = unat i mod 65536"
    by (simp add: take_bit_eq_mod)
  finally show ?thesis
    by (simp add: slot_of_mod mask16 take_bit_eq_mask)
qed

lemma gen_nonzero:
  assumes "0 < k" "k < 65536"
  shows "(of_nat k * new_object_id_add :: u32) \<noteq> 0"
proof
  assume "(of_nat k * new_object_id_add :: u32) = 0"
  then have "unat (of_nat k * 65536 :: u32) = 0"
    by (simp add: new_object_id_add_def)
  moreover have "unat (of_nat k :: u32) = k"
    using assms by (simp add: unat_of_nat take_bit_nat_eq_self)
  ultimately have "(k * 65536) mod 4294967296 = 0"
    by (simp add: unat_word_ariths)
  moreover have "k * 65536 < 4294967296" using assms by simp
  ultimately show False using assms by simp
qed

section \<open>The invariant holds in a fresh pool\<close>

lemma chain_upt:
  assumes "length inds = c" "c < 65535" "\<forall>i<c. next_slot (inds ! i) = of_nat (i + 1)"
  shows "a \<le> c \<Longrightarrow> chain inds a [a..<c] c"
proof (induction "c - a" arbitrary: a)
  case 0
  then show ?case by simp
next
  case (Suc k)
  then have lt: "a < c" and ih: "chain inds (Suc a) [Suc a..<c] c"
    by auto
  have "unat (of_nat (a + 1) :: u16) = Suc a"
    using lt assms(2) by (simp add: unat_of_nat16 del: of_nat_Suc of_nat_add)
  with lt ih assms(1,3) have "chain inds a (a # [Suc a..<c]) c"
    by simp
  with lt show ?case
    by (simp only: upt_conv_Cons)
qed

lemma wf_init_pool: "c < 65535 \<Longrightarrow> wf (init_pool c)"
proof -
  assume c: "c < 65535"
  have "chain (map init_index [0..<c]) 0 [0..<c] c"
    using c by (intro chain_upt) (simp_all add: init_index_def)
  then have "free_ok (init_pool c :: 'a freelist_t) [0..<c]"
    by (simp add: free_ok_def init_pool_def is_free_def init_index_def)
  moreover have "\<forall>s<c. slot_ok (init_pool c :: 'a freelist_t) s"
    using c by (simp add: slot_ok_def init_pool_def init_index_def slot_of_of_nat)
  ultimately show ?thesis
    using c by (auto simp add: wf_def init_pool_def)
qed

section \<open>Insertion keeps the invariant\<close>

lemma chain_cong:
  "length inds' = length inds \<Longrightarrow> \<forall>x\<in>set xs. next_slot (inds' ! x) = next_slot (inds ! x) \<Longrightarrow>
   chain inds' a xs b = chain inds a xs b"
  by (induction xs arbitrary: a) auto

lemma wf_head:
  assumes "wf fl" "num_objects fl < max_objects fl"
  obtains xs where "free_ok fl (unat (enqueue fl) # xs)"
proof -
  from assms(1) obtain fs where fs: "free_ok fl fs"
    by (auto simp: wf_def)
  with assms(2) have "fs \<noteq> []"
    by (auto simp: free_ok_def)
  then obtain x xs where "fs = x # xs"
    by (cases fs) auto
  with fs have "free_ok fl (unat (enqueue fl) # xs)"
    by (auto simp: free_ok_def)
  then show ?thesis ..
qed

lemma emplace_Inr:
  assumes "wf fl" "num_objects fl < max_objects fl"
  shows "emplace fl v =
     Inr (fl\<lparr>enqueue := next_slot (indices fl ! unat (enqueue fl)),
             indices := (indices fl)[unat (enqueue fl) :=
                (indices fl ! unat (enqueue fl))
                  \<lparr>id_val := id_val (indices fl ! unat (enqueue fl)) + new_object_id_add,
                   index := Some (of_nat (num_objects fl))\<rparr>],
             num_objects := num_objects fl + 1,
             object_ids := (object_ids fl)[num_objects fl :=
                Some (id_val (indices fl ! unat (enqueue fl)) + new_object_id_add)],
             objects := (objects fl)[num_objects fl := Some v]\<rparr>,
          id_val (indices fl ! unat (enqueue fl)) + new_object_id_add)"
proof -
  from assms obtain xs where "free_ok fl (unat (enqueue fl) # xs)"
    by (rule wf_head)
  then have s: "unat (enqueue fl) < length (indices fl)"
    by (simp add: free_ok_def)
  from assms have n: "num_objects fl < 65535" "length (object_ids fl) = max_objects fl"
    "length (objects fl) = max_objects fl"
    by (auto simp: wf_def)
  then have u: "unat (of_nat (num_objects fl) :: u16) = num_objects fl"
    by (simp add: unat_of_nat16)
  show ?thesis
    using s n u assms(2)
    by (simp add: emplace_def insert_alloc_def construct_at_def Let_def)
qed

lemma emplace_post:
  assumes wf: "wf fl" and lt: "num_objects fl < max_objects fl"
    and em: "emplace fl v = Inr (fl', h)"
  shows "fl' = fl\<lparr>enqueue := next_slot (indices fl ! unat (enqueue fl)),
             indices := (indices fl)[unat (enqueue fl) :=
                (indices fl ! unat (enqueue fl))
                  \<lparr>id_val := id_val (indices fl ! unat (enqueue fl)) + new_object_id_add,
                   index := Some (of_nat (num_objects fl))\<rparr>],
             num_objects := num_objects fl + 1,
             object_ids := (object_ids fl)[num_objects fl :=
                Some (id_val (indices fl ! unat (enqueue fl)) + new_object_id_add)],
             objects := (objects fl)[num_objects fl := Some v]\<rparr> \<and>
         h = id_val (indices fl ! unat (enqueue fl)) + new_object_id_add"
  using em [symmetric] unfolding emplace_Inr [OF wf lt] by (simp only: sum.inject prod.inject)

lemma occupied_not_free:
  "wf fl \<Longrightarrow> p < num_objects fl \<Longrightarrow> object_ids fl ! p = Some h \<Longrightarrow>
   \<not> is_free (indices fl ! slot_of h) \<and> index (indices fl ! slot_of h) = Some (of_nat p) \<and>
   id_val (indices fl ! slot_of h) = h \<and> slot_of h < max_objects fl"
proof -
  assume a: "wf fl" "p < num_objects fl" "object_ids fl ! p = Some h"
  then have d: "dense_ok fl p" by (simp add: wf_def)
  from a obtain fs where "free_ok fl fs" by (auto simp: wf_def)
  with a have "p < 65535" by (auto simp: wf_def free_ok_def)
  then have "(of_nat p :: u16) \<noteq> tombstone" by (rule of_nat_neq_tomb)
  with d a(3) show ?thesis
    by (simp add: dense_ok_def is_free_def)
qed

lemma wf_emplace:
  assumes wf: "wf fl" and lt: "num_objects fl < max_objects fl"
    and em: "emplace fl v = Inr (fl', h)"
  shows "wf fl'"
proof -
  define s where "s = unat (enqueue fl)"
  define e where "e = indices fl ! s"
  define n where "n = num_objects fl"
  define e' where "e' = e\<lparr>id_val := id_val e + new_object_id_add, index := Some (of_nat n)\<rparr>"
  have fl': "fl' = fl\<lparr>enqueue := next_slot e, indices := (indices fl)[s := e'],
       num_objects := n + 1, object_ids := (object_ids fl)[n := Some (id_val e')],
       objects := (objects fl)[n := Some v]\<rparr>"
    using emplace_post [OF wf lt em] by (simp add: s_def e_def n_def e'_def)
  from wf lt obtain xs where fs: "free_ok fl (s # xs)"
    unfolding s_def by (rule wf_head)
  have len: "length (indices fl) = max_objects fl" "length (object_ids fl) = max_objects fl"
    "length (objects fl) = max_objects fl" "max_objects fl < 65535"
    using wf by (auto simp: wf_def)
  have s: "s < max_objects fl" "is_free e" "s \<notin> set xs" "distinct xs"
    "chain (indices fl) (unat (next_slot e)) xs (max_objects fl)"
    "length xs + (n + 1) = max_objects fl" "\<forall>x\<in>set xs. is_free (indices fl ! x)"
    using fs len by (auto simp: free_ok_def e_def n_def)
  have e'_sel [simp]: "index e' = Some (of_nat n)" "next_slot e' = next_slot e"
    by (simp_all add: e'_def)
  have sx: "\<And>x. x \<in> set xs \<Longrightarrow> s \<noteq> x"
    using s(3) by auto
  have sok: "\<And>x. x < max_objects fl \<Longrightarrow> slot_ok fl x"
    using wf by (simp add: wf_def)
  have dok: "\<And>p. p < n \<Longrightarrow> dense_ok fl p"
    using wf by (simp add: wf_def n_def)
  have slot_h: "slot_of (id_val e') = s"
    using sok [OF s(1)] by (simp add: e'_def slot_of_add slot_ok_def e_def)
  have n16: "unat (of_nat n :: u16) = n"
    using lt len by (simp add: unat_of_nat16 n_def)
  have free': "free_ok fl' xs"
  proof -
    have "chain (indices fl') (unat (next_slot e)) xs (max_objects fl) =
          chain (indices fl) (unat (next_slot e)) xs (max_objects fl)"
      using sx by (intro chain_cong) (simp_all add: fl')
    then have "chain (indices fl') (unat (enqueue fl')) xs (max_objects fl') =
          chain (indices fl) (unat (next_slot e)) xs (max_objects fl)"
      by (simp add: fl')
    moreover have "\<forall>x\<in>set xs. is_free (indices fl' ! x)"
      using sx s(7) by (simp add: fl')
    ultimately show ?thesis
      using s(4,5,6) by (simp add: free_ok_def) (simp add: fl')
  qed
  have dense': "dense_ok fl' p" if p: "p < n + 1" for p
  proof (cases "p = n")
    case True
    then show ?thesis
      using slot_h s(1) len lt
      by (simp add: dense_ok_def fl' n_def [symmetric])
  next
    case False
    with p have pn: "p < n" by simp
    then obtain g where g: "object_ids fl ! p = Some g"
      using dok [OF pn] by (auto simp: dense_ok_def split: option.splits)
    from occupied_not_free [OF wf _ g] pn
    have o: "\<not> is_free (indices fl ! slot_of g)" "index (indices fl ! slot_of g) = Some (of_nat p)"
      "id_val (indices fl ! slot_of g) = g" "slot_of g < max_objects fl"
      by (simp_all add: n_def)
    with s(2) have "slot_of g \<noteq> s" by (auto simp: e_def)
    with o g pn dok [OF pn] show ?thesis
      by (simp add: dense_ok_def fl')
  qed
  have slot': "slot_ok fl' x" if x: "x < max_objects fl" for x
  proof (cases "x = s")
    case True
    then show ?thesis
      using slot_h s(1) len lt n16
      by (simp add: slot_ok_def fl' n_def [symmetric])
  next
    case False
    with sok [OF x] show ?thesis
      by (auto simp: slot_ok_def fl' n_def [symmetric] split: option.splits)
  qed
  show ?thesis
    unfolding wf_def
    using len free' dense' slot'
    by (auto simp: fl')
qed

section \<open>Removal keeps the invariant\<close>

lemma contains_TrueD:
  "contains fl h = Inr True \<Longrightarrow>
   slot_of h < length (indices fl) \<and> id_val (indices fl ! slot_of h) = h \<and>
   (\<exists>ix. index (indices fl ! slot_of h) = Some ix \<and> ix \<noteq> tombstone)"
  by (auto simp: contains_def Let_def split: if_splits option.splits)

lemma contains_TrueI:
  "slot_of h < length (indices fl) \<Longrightarrow> id_val (indices fl ! slot_of h) = h \<Longrightarrow>
   index (indices fl ! slot_of h) = Some ix \<Longrightarrow> ix \<noteq> tombstone \<Longrightarrow> contains fl h = Inr True"
  by (simp add: contains_def)

lemma index_t_upd_eq:
  "(r :: index_t)\<lparr>index := a, next_slot := b\<rparr> = \<lparr>id_val = id_val r, index = a, next_slot = b\<rparr>"
  by (cases r) simp

lemma erase_post:
  assumes wf: "wf fl" and c: "contains fl h = Inr True"
  obtains ix lid lastv where
    "index (indices fl ! slot_of h) = Some ix" "ix \<noteq> tombstone" "unat ix < num_objects fl"
    "object_ids fl ! unat ix = Some h"
    "object_ids fl ! (num_objects fl - 1) = Some lid"
    "objects fl ! (num_objects fl - 1) = Some lastv"
    "erase fl h =
       Inr (fl\<lparr>num_objects := num_objects fl - 1,
               objects := ((objects fl)[unat ix := Some lastv])[num_objects fl - 1 := None],
               object_ids := (object_ids fl)[unat ix := Some lid],
               indices := ((indices fl)[slot_of lid := (indices fl ! slot_of lid)\<lparr>index := Some ix\<rparr>])
                  [slot_of h := \<lparr>id_val = h, index = Some tombstone, next_slot = enqueue fl\<rparr>],
               enqueue := ucast (h AND ucast index_mask)\<rparr>)"
proof -
  from contains_TrueD [OF c] obtain ix where
    s: "slot_of h < length (indices fl)" "id_val (indices fl ! slot_of h) = h"
    and ix: "index (indices fl ! slot_of h) = Some ix" "ix \<noteq> tombstone"
    by auto
  have len: "length (indices fl) = max_objects fl" "length (object_ids fl) = max_objects fl"
    "length (objects fl) = max_objects fl"
    using wf by (auto simp: wf_def)
  obtain fs where fs: "free_ok fl fs" using wf by (auto simp: wf_def)
  then have nmax: "num_objects fl \<le> max_objects fl" by (simp add: free_ok_def)
  have "slot_ok fl (slot_of h)" using wf s(1) len by (simp add: wf_def)
  with ix s have p: "unat ix < num_objects fl" "object_ids fl ! unat ix = Some h"
    by (simp_all add: slot_ok_def)
  then have n0: "num_objects fl \<noteq> 0" "num_objects fl - 1 < num_objects fl" by simp_all
  have n1: "num_objects fl - Suc 0 < max_objects fl" using n0 nmax by simp
  have dl: "dense_ok fl (num_objects fl - 1)" and dp: "dense_ok fl (unat ix)"
    using wf n0 p by (simp_all add: wf_def)
  from dl obtain lid lastv where l: "object_ids fl ! (num_objects fl - 1) = Some lid"
    "slot_of lid < max_objects fl" "objects fl ! (num_objects fl - 1) = Some lastv"
    by (auto simp: dense_ok_def split: option.splits)
  from dp obtain pv where pv: "objects fl ! unat ix = Some pv"
    by (auto simp: dense_ok_def split: option.splits)
  have "erase fl h = Inr (fl\<lparr>num_objects := num_objects fl - 1,
               objects := ((objects fl)[unat ix := Some lastv])[num_objects fl - 1 := None],
               object_ids := (object_ids fl)[unat ix := Some lid],
               indices := ((indices fl)[slot_of lid := (indices fl ! slot_of lid)\<lparr>index := Some ix\<rparr>])
                  [slot_of h := \<lparr>id_val = h, index = Some tombstone, next_slot = enqueue fl\<rparr>],
               enqueue := ucast (h AND ucast index_mask)\<rparr>)"
    using c ix p n0 l pv len nmax s n1
    by (cases "slot_of lid = slot_of h") (simp_all add: erase_def Let_def index_t_upd_eq)
  with ix p l(1,3) show ?thesis
    by (rule that)
qed

lemma of_nat16_inj:
  "a < 65536 \<Longrightarrow> b < 65536 \<Longrightarrow> (of_nat a :: u16) = of_nat b \<Longrightarrow> a = b"
  by (metis unat_of_nat16)

lemma wf_bounds:
  "wf fl \<Longrightarrow> num_objects fl \<le> max_objects fl \<and> max_objects fl < 65535"
  by (auto simp: wf_def free_ok_def)

lemma wf_erase:
  assumes wf: "wf fl" and c: "contains fl h = Inr True" and er: "erase fl h = Inr fl'"
  shows "wf fl'"
proof -
  define s where "s = slot_of h"
  define n where "n = num_objects fl"
  from wf c obtain ix lid lastv where
    ix: "index (indices fl ! s) = Some ix" "ix \<noteq> tombstone" "unat ix < n"
    and oids: "object_ids fl ! unat ix = Some h" "object_ids fl ! (n - 1) = Some lid"
    and objs: "objects fl ! (n - 1) = Some lastv"
    and post: "erase fl h =
       Inr (fl\<lparr>num_objects := n - 1,
               objects := ((objects fl)[unat ix := Some lastv])[n - 1 := None],
               object_ids := (object_ids fl)[unat ix := Some lid],
               indices := ((indices fl)[slot_of lid := (indices fl ! slot_of lid)\<lparr>index := Some ix\<rparr>])
                  [s := \<lparr>id_val = h, index = Some tombstone, next_slot = enqueue fl\<rparr>],
               enqueue := ucast (h AND ucast index_mask)\<rparr>)"
    unfolding s_def n_def by (rule erase_post)
  define p where "p = unat ix"
  define m where "m = slot_of lid"
  define em where "em = (indices fl ! m)\<lparr>index := Some ix\<rparr>"
  define es where "es = \<lparr>id_val = h, index = Some tombstone, next_slot = enqueue fl\<rparr>"
  have fl': "fl' = fl\<lparr>num_objects := n - 1,
               objects := ((objects fl)[p := Some lastv])[n - 1 := None],
               object_ids := (object_ids fl)[p := Some lid],
               indices := ((indices fl)[m := em])[s := es],
               enqueue := ucast (h AND ucast index_mask)\<rparr>"
    using er [symmetric] unfolding post by (simp only: sum.inject p_def m_def em_def es_def)
  have len: "length (indices fl) = max_objects fl" "length (object_ids fl) = max_objects fl"
    "length (objects fl) = max_objects fl"
    using wf by (auto simp: wf_def)
  have bnd: "n \<le> max_objects fl" "max_objects fl < 65535"
    using wf_bounds [OF wf] by (simp_all add: n_def)
  have pn: "p < n" using ix(3) by (simp add: p_def)
  have sok: "\<And>x. x < max_objects fl \<Longrightarrow> slot_ok fl x"
    using wf by (simp add: wf_def)
  have dok: "\<And>q. q < n \<Longrightarrow> dense_ok fl q"
    using wf by (simp add: wf_def n_def)
  have occ: "\<And>q g. q < n \<Longrightarrow> object_ids fl ! q = Some g \<Longrightarrow>
      \<not> is_free (indices fl ! slot_of g) \<and> index (indices fl ! slot_of g) = Some (of_nat q) \<and>
      id_val (indices fl ! slot_of g) = g \<and> slot_of g < max_objects fl"
    using occupied_not_free [OF wf] by (simp add: n_def)
  have s: "s < max_objects fl" "index (indices fl ! s) = Some (of_nat p)"
    "id_val (indices fl ! s) = h" "\<not> is_free (indices fl ! s)"
    using occ [OF pn] oids(1) by (simp_all add: p_def s_def)
  have m: "m < max_objects fl" "index (indices fl ! m) = Some (of_nat (n - 1))"
    "id_val (indices fl ! m) = lid" "\<not> is_free (indices fl ! m)"
    using occ [of "n - 1" lid] oids(2) pn by (simp_all add: m_def)
  have ixp: "ix = of_nat p"
    using ix(1) s(2) by simp
  have ms: "m = s \<longleftrightarrow> p = n - 1"
  proof
    assume "m = s"
    with s(2) m(2) have "(of_nat p :: u16) = of_nat (n - 1)" by simp
    then show "p = n - 1"
      using pn bnd by (intro of_nat16_inj) simp_all
  next
    assume "p = n - 1"
    with oids have "lid = h" by (simp add: p_def)
    then show "m = s" by (simp add: m_def s_def)
  qed
  have nth_s: "indices fl' ! s = es"
    using s(1) len by (simp add: fl')
  have nth_m: "m \<noteq> s \<Longrightarrow> indices fl' ! m = em"
    using m(1) len by (simp add: fl')
  have nth_o: "\<And>x. x \<noteq> s \<Longrightarrow> x \<noteq> m \<Longrightarrow> indices fl' ! x = indices fl ! x"
    by (simp add: fl')
  have sel: "num_objects fl' = n - 1" "max_objects fl' = max_objects fl"
    "object_ids fl' = (object_ids fl)[p := Some lid]"
    "objects fl' = ((objects fl)[p := Some lastv])[n - 1 := None]"
    "length (indices fl') = max_objects fl" "unat (enqueue fl') = s"
    using len by (simp_all add: fl' unat_ucast_slot s_def)
  have dense': "dense_ok fl' q" if q: "q < n - 1" for q
  proof (cases "q = p")
    case True
    with q ms have neq: "m \<noteq> s" by simp
    show ?thesis
      using True q neq nth_m m pn len bnd
      by (simp add: dense_ok_def sel m_def [symmetric] em_def ixp)
  next
    case False
    from q have qn: "q < n" by simp
    from dok [OF qn] obtain g where g: "object_ids fl ! q = Some g" "objects fl ! q \<noteq> None"
      by (auto simp: dense_ok_def split: option.splits)
    from occ [OF qn g(1)] have o: "index (indices fl ! slot_of g) = Some (of_nat q)"
      "id_val (indices fl ! slot_of g) = g" "slot_of g < max_objects fl"
      by simp_all
    have "slot_of g \<noteq> s"
    proof
      assume "slot_of g = s"
      with o(1) s(2) have "(of_nat q :: u16) = of_nat p" by simp
      then have "q = p" using qn pn bnd by (intro of_nat16_inj) simp_all
      with False show False by simp
    qed
    moreover have "slot_of g \<noteq> m"
    proof
      assume "slot_of g = m"
      with o(1) m(2) have "(of_nat q :: u16) = of_nat (n - 1)" by simp
      then have "q = n - 1" using qn pn bnd by (intro of_nat16_inj) simp_all
      with q show False by simp
    qed
    ultimately have "indices fl' ! slot_of g = indices fl ! slot_of g"
      by (rule nth_o)
    with False g o q show ?thesis
      by (simp add: dense_ok_def sel)
  qed
  have slot': "slot_ok fl' x" if x: "x < max_objects fl" for x
  proof -
    consider "x = s" | "x \<noteq> s" "x = m" | "x \<noteq> s" "x \<noteq> m" by blast
    then show ?thesis
    proof cases
      case 1
      have "slot_of h = s" by (simp add: s_def)
      with 1 show ?thesis
        by (simp add: slot_ok_def nth_s es_def)
    next
      case 2
      with ms have "p \<noteq> n - 1" by simp
      with pn have "p < n - 1" by simp
      moreover have "slot_of lid = m" by (simp add: m_def)
      ultimately show ?thesis
        using 2 nth_m m len bnd pn
        by (simp add: slot_ok_def sel em_def p_def)
    next
      case 3
      then have eq: "indices fl' ! x = indices fl ! x" by (rule nth_o)
      have so: "slot_of (id_val (indices fl ! x)) = x"
        using sok [OF x] by (simp add: slot_ok_def)
      show ?thesis
      proof (cases "index (indices fl ! x)")
        case None
        with sok [OF x] show ?thesis by (auto simp add: slot_ok_def eq)
      next
        case (Some iy)
        show ?thesis
        proof (cases "iy = tombstone")
          case True
          with Some so show ?thesis by (simp add: slot_ok_def eq)
        next
          case False
          with Some sok [OF x] have y: "unat iy < n"
            "object_ids fl ! unat iy = Some (id_val (indices fl ! x))"
            by (simp_all add: slot_ok_def n_def)
          have "unat iy \<noteq> p"
          proof
            assume "unat iy = p"
            with y(2) oids(1) have "id_val (indices fl ! x) = h" by (simp add: p_def)
            with so 3(1) show False by (simp add: s_def)
          qed
          moreover have "unat iy \<noteq> n - 1"
          proof
            assume "unat iy = n - 1"
            with y(2) oids(2) have "id_val (indices fl ! x) = lid" by simp
            with so 3(2) show False by (simp add: m_def)
          qed
          moreover from this y(1) have "unat iy < n - 1" by simp
          ultimately show ?thesis
            using Some so y by (simp add: slot_ok_def eq sel)
        qed
      qed
    qed
  qed
  obtain fs where fs: "free_ok fl fs" using wf by (auto simp: wf_def)
  have free': "free_ok fl' (s # fs)"
  proof -
    have fr: "\<And>x. x \<in> set fs \<Longrightarrow> is_free (indices fl ! x)"
      using fs by (simp add: free_ok_def)
    have xs: "\<And>x. x \<in> set fs \<Longrightarrow> x \<noteq> s" using fr s(4) by auto
    have xm: "\<And>x. x \<in> set fs \<Longrightarrow> x \<noteq> m" using fr m(4) by auto
    have same: "\<And>x. x \<in> set fs \<Longrightarrow> indices fl' ! x = indices fl ! x"
      using xs xm nth_o by simp
    have "chain (indices fl') (unat (enqueue fl)) fs (max_objects fl) =
          chain (indices fl) (unat (enqueue fl)) fs (max_objects fl)"
      using same len by (intro chain_cong) (simp_all add: sel)
    then have "chain (indices fl') (unat (enqueue fl)) fs (max_objects fl)"
      using fs by (simp add: free_ok_def)
    then have "chain (indices fl') (unat (enqueue fl')) (s # fs) (max_objects fl')"
      using s(1) by (simp add: sel nth_s es_def)
    moreover have "distinct (s # fs)"
      using fs xs by (auto simp: free_ok_def)
    moreover have "length (s # fs) + num_objects fl' = max_objects fl'"
      using fs pn by (simp add: free_ok_def sel n_def)
    moreover have "\<forall>x\<in>set (s # fs). is_free (indices fl' ! x)"
      using fr same by (simp add: nth_s es_def is_free_def)
    ultimately show ?thesis
      by (simp only: free_ok_def simp_thms)
  qed
  show ?thesis
    unfolding wf_def
    using len bnd free' dense' slot' sel
    by (auto simp: fl')
qed

section \<open>The invariant holds in every reachable pool\<close>

lemma insert_fl_emplace:
  "insert_fl obj_id fl v =
     (case emplace fl v of Inl err \<Rightarrow> Inl err | Inr (fl', h) \<Rightarrow> Inr (fl', obj_id v))"
  by (simp add: insert_fl_def emplace_def split: sum.splits prod.splits)

lemma emplace_full:
  assumes "wf fl" "num_objects fl = max_objects fl"
  shows "emplace fl v = Inl OutOfBounds"
proof -
  from assms(1) obtain fs where "free_ok fl fs" by (auto simp: wf_def)
  with assms(2) have "unat (enqueue fl) = max_objects fl"
    by (auto simp add: free_ok_def)
  moreover have "length (indices fl) = max_objects fl"
    using assms(1) by (simp add: wf_def)
  ultimately show ?thesis
    using assms(2) by (simp add: emplace_def insert_alloc_def)
qed

lemma emplace_InrD:
  assumes "wf fl" "emplace fl v = Inr r"
  shows "num_objects fl < max_objects fl"
proof (rule ccontr)
  assume "\<not> num_objects fl < max_objects fl"
  with wf_bounds [OF assms(1)] have "num_objects fl = max_objects fl" by simp
  from emplace_full [OF assms(1) this, of v] assms(2) show False by simp
qed

lemma erase_InrD: "erase fl h = Inr fl' \<Longrightarrow> contains fl h = Inr True"
  by (auto simp: erase_def split: sum.splits bool.splits)

lemma wf_step:
  assumes "wf fl" "step obj_id fl x = Inr fl'"
  shows "wf fl'"
proof (cases x)
  case (Insert v)
  with assms(2) obtain h where e: "emplace fl v = Inr (fl', h)"
    by (auto simp: insert_fl_emplace split: sum.splits)
  from wf_emplace [OF assms(1) emplace_InrD [OF assms(1) e] e] show ?thesis .
next
  case (Emplace v)
  with assms(2) obtain h where e: "emplace fl v = Inr (fl', h)"
    by (auto split: sum.splits)
  from wf_emplace [OF assms(1) emplace_InrD [OF assms(1) e] e] show ?thesis .
next
  case (Erase h)
  with assms(2) have e: "erase fl h = Inr fl'" by simp
  from wf_erase [OF assms(1) erase_InrD [OF e] e] show ?thesis .
qed

lemma wf_run: "wf fl \<Longrightarrow> run obj_id fl xs = Inr fl' \<Longrightarrow> wf fl'"
proof (induction xs arbitrary: fl)
  case Nil
  then show ?case by simp
next
  case (Cons x xs)
  from Cons.prems(2) obtain fl1 where s: "step obj_id fl x = Inr fl1"
    and r: "run obj_id fl1 xs = Inr fl'"
    by (auto split: sum.splits)
  from Cons.IH [OF wf_step [OF Cons.prems(1) s] r] show ?case .
qed

lemma reachable_wf: "reachable obj_id c xs fl \<Longrightarrow> wf fl"
proof -
  assume r: "reachable obj_id c xs fl"
  then have c: "c < 65535" and run: "run obj_id (init_pool c) xs = Inr fl"
    by (auto simp: reachable_def freelist_new_def split: if_splits)
  from wf_run [OF wf_init_pool [OF c] run] show ?thesis .
qed

section \<open>Iteration over the dense handles\<close>

lemma traverse_upt:
  assumes "\<forall>q. i \<le> q \<and> q < e \<longrightarrow> q < length (object_ids fl) \<and> object_ids fl ! q \<noteq> None"
    and "i \<le> e"
  shows "traverse fl i e = Inr (map (\<lambda>q. the (object_ids fl ! q)) [i..<e])"
  using assms
proof (induction "e - i" arbitrary: i)
  case 0
  then show ?case by (simp add: differs_def)
next
  case (Suc k)
  then have lt: "i < e" by simp
  with Suc.prems(1) obtain g where g: "i < length (object_ids fl)" "object_ids fl ! i = Some g"
    by auto
  have "traverse fl (Suc i) e = Inr (map (\<lambda>q. the (object_ids fl ! q)) [Suc i..<e])"
    using Suc.hyps(2) Suc.prems lt by (intro Suc.hyps(1)) auto
  with lt g show ?case
    by (subst traverse.simps) (simp add: differs_def deref_def incr_def upt_conv_Cons)
qed

lemma handles_wf:
  assumes "wf fl"
  shows "handles fl = Inr (map (\<lambda>q. the (object_ids fl ! q)) [0..<num_objects fl])"
proof -
  have "\<forall>q. 0 \<le> q \<and> q < num_objects fl \<longrightarrow>
      q < length (object_ids fl) \<and> object_ids fl ! q \<noteq> None"
  proof (intro allI impI)
    fix q assume "0 \<le> q \<and> q < num_objects fl"
    then have q: "q < num_objects fl" by simp
    with assms have "dense_ok fl q" by (simp add: wf_def)
    moreover have "q < length (object_ids fl)"
      using q wf_bounds [OF assms] assms by (simp add: wf_def)
    ultimately show "q < length (object_ids fl) \<and> object_ids fl ! q \<noteq> None"
      by (auto simp: dense_ok_def split: option.splits)
  qed
  then show ?thesis
    unfolding handles_def begin_it_def end_it_def by (rule traverse_upt) simp
qed

lemma live_contains:
  assumes "wf fl" "q < num_objects fl"
  shows "object_ids fl ! q \<noteq> None \<and> contains fl (the (object_ids fl ! q)) = Inr True \<and>
         index (indices fl ! slot_of (the (object_ids fl ! q))) = Some (of_nat q)"
proof -
  from assms have "dense_ok fl q" by (simp add: wf_def)
  then obtain g where g: "object_ids fl ! q = Some g"
    by (auto simp: dense_ok_def split: option.splits)
  from occupied_not_free [OF assms g]
  have o: "index (indices fl ! slot_of g) = Some (of_nat q)" "id_val (indices fl ! slot_of g) = g"
    "slot_of g < max_objects fl"
    by simp_all
  have "q < 65535" using assms(2) wf_bounds [OF assms(1)] by simp
  then have "(of_nat q :: u16) \<noteq> tombstone" by (rule of_nat_neq_tomb)
  moreover have "length (indices fl) = max_objects fl" using assms(1) by (simp add: wf_def)
  ultimately have "contains fl g = Inr True"
    using o by (intro contains_TrueI) simp_all
  with g o(1) show ?thesis by simp
qed

lemma contains_live:
  assumes "wf fl" "contains fl h = Inr True"
  obtains q where "q < num_objects fl" "object_ids fl ! q = Some h"
    "index (indices fl ! slot_of h) = Some (of_nat q)"
proof -
  from contains_TrueD [OF assms(2)] obtain ix where
    s: "slot_of h < length (indices fl)" "id_val (indices fl ! slot_of h) = h"
    and ix: "index (indices fl ! slot_of h) = Some ix" "ix \<noteq> tombstone"
    by auto
  have "slot_ok fl (slot_of h)" using assms(1) s(1) by (simp add: wf_def)
  with s ix have q: "unat ix < num_objects fl" "object_ids fl ! unat ix = Some h"
    by (simp_all add: slot_ok_def)
  from occupied_not_free [OF assms(1) q] ix(1)
  have "index (indices fl ! slot_of h) = Some (of_nat (unat ix))" by simp
  with q show ?thesis by (rule that)
qed

lemma handles_props:
  assumes "wf fl"
  shows "\<exists>hs. handles fl = Inr hs \<and> hs = map (\<lambda>q. the (object_ids fl ! q)) [0..<num_objects fl] \<and>
     length hs = num_objects fl \<and> distinct hs \<and> (\<forall>h. h \<in> set hs \<longleftrightarrow> contains fl h = Inr True)"
proof -
  define f where "f = (\<lambda>q. the (object_ids fl ! q))"
  define hs where "hs = map f [0..<num_objects fl]"
  have bnd: "num_objects fl < 65536" using wf_bounds [OF assms] by simp
  have inj: "inj_on f {0..<num_objects fl}"
  proof (rule inj_onI)
    fix a b assume ab: "a \<in> {0..<num_objects fl}" "b \<in> {0..<num_objects fl}" "f a = f b"
    from live_contains [OF assms, of a] live_contains [OF assms, of b] ab
    have "(of_nat a :: u16) = of_nat b" by (simp add: f_def)
    then show "a = b" using ab bnd by (intro of_nat16_inj) simp_all
  qed
  have d: "distinct hs"
    unfolding hs_def by (simp add: distinct_map inj)
  have mem: "h \<in> set hs \<longleftrightarrow> contains fl h = Inr True" for h
  proof
    assume "h \<in> set hs"
    then obtain q where "q < num_objects fl" "h = f q" by (auto simp: hs_def)
    with live_contains [OF assms, of q] show "contains fl h = Inr True" by (simp add: f_def)
  next
    assume "contains fl h = Inr True"
    with assms obtain q where "q < num_objects fl" "object_ids fl ! q = Some h"
      by (elim contains_live)
    then have "h = f q" "q \<in> set [0..<num_objects fl]" by (simp_all add: f_def)
    then show "h \<in> set hs" unfolding hs_def by (simp only: set_map image_eqI)
  qed
  show ?thesis
    using handles_wf [OF assms] d mem by (simp add: hs_def f_def)
qed

section \<open>What removal leaves in place\<close>

lemma lookup_live:
  assumes wf: "wf fl" and q: "q < num_objects fl" "object_ids fl ! q = Some g"
  shows "lookup fl g = (case objects fl ! q of None \<Rightarrow> Inl Indeterminate | Some v \<Rightarrow> Inr v) \<and>
         objects fl ! q \<noteq> None"
proof -
  from occupied_not_free [OF wf q]
  have o: "index (indices fl ! slot_of g) = Some (of_nat q)" "slot_of g < max_objects fl"
    by simp_all
  have len: "length (indices fl) = max_objects fl" "length (objects fl) = max_objects fl"
    using wf by (simp_all add: wf_def)
  have b: "q < max_objects fl" "q < 65536" using q(1) wf_bounds [OF wf] by simp_all
  from wf q(1) have "dense_ok fl q" by (simp add: wf_def)
  with q(2) have "objects fl ! q \<noteq> None" by (simp add: dense_ok_def)
  then show ?thesis
    using o len b by (simp add: lookup_def unat_of_nat16)
qed

lemma erase_frame:
  assumes wf: "wf fl" and c: "contains fl h = Inr True" and er: "erase fl h = Inr fl'"
    and c': "contains fl g = Inr True" and ne: "g \<noteq> h"
  shows "contains fl' g = Inr True \<and> lookup fl' g = lookup fl g \<and> (\<exists>v. lookup fl g = Inr v)"
proof -
  define s where "s = slot_of h"
  define n where "n = num_objects fl"
  from wf c obtain ix lid lastv where
    ix: "index (indices fl ! s) = Some ix" "ix \<noteq> tombstone" "unat ix < n"
    and oids: "object_ids fl ! unat ix = Some h" "object_ids fl ! (n - 1) = Some lid"
    and objs: "objects fl ! (n - 1) = Some lastv"
    and post: "erase fl h =
       Inr (fl\<lparr>num_objects := n - 1,
               objects := ((objects fl)[unat ix := Some lastv])[n - 1 := None],
               object_ids := (object_ids fl)[unat ix := Some lid],
               indices := ((indices fl)[slot_of lid := (indices fl ! slot_of lid)\<lparr>index := Some ix\<rparr>])
                  [s := \<lparr>id_val = h, index = Some tombstone, next_slot = enqueue fl\<rparr>],
               enqueue := ucast (h AND ucast index_mask)\<rparr>)"
    unfolding s_def n_def by (rule erase_post)
  define p where "p = unat ix"
  define m where "m = slot_of lid"
  define em where "em = (indices fl ! m)\<lparr>index := Some ix\<rparr>"
  define es where "es = \<lparr>id_val = h, index = Some tombstone, next_slot = enqueue fl\<rparr>"
  have fl': "fl' = fl\<lparr>num_objects := n - 1,
               objects := ((objects fl)[p := Some lastv])[n - 1 := None],
               object_ids := (object_ids fl)[p := Some lid],
               indices := ((indices fl)[m := em])[s := es],
               enqueue := ucast (h AND ucast index_mask)\<rparr>"
    using er [symmetric] unfolding post by (simp only: sum.inject p_def m_def em_def es_def)
  have len: "length (indices fl) = max_objects fl" "length (object_ids fl) = max_objects fl"
    "length (objects fl) = max_objects fl"
    using wf by (auto simp: wf_def)
  have bnd: "n \<le> max_objects fl" "max_objects fl < 65535"
    using wf_bounds [OF wf] by (simp_all add: n_def)
  have pn: "p < n" using ix(3) by (simp add: p_def)
  have mm: "m < max_objects fl" "index (indices fl ! m) = Some (of_nat (n - 1))"
    "id_val (indices fl ! m) = lid"
    using occupied_not_free [OF wf, of "n - 1" lid] oids(2) pn by (simp_all add: m_def n_def)
  from wf c' obtain q where q: "q < n" "object_ids fl ! q = Some g"
    "index (indices fl ! slot_of g) = Some (of_nat q)"
    unfolding n_def by (rule contains_live)
  from contains_TrueD [OF c'] have sg: "slot_of g < max_objects fl"
    "id_val (indices fl ! slot_of g) = g"
    using len by simp_all
  from contains_TrueD [OF c] have sh: "id_val (indices fl ! s) = h" "s < max_objects fl"
    using len by (simp_all add: s_def)
  from lookup_live [OF wf _ q(2)] q(1) obtain w where
    w: "objects fl ! q = Some w" "lookup fl g = Inr w"
    by (auto simp: n_def)
  have gs: "slot_of g \<noteq> s" using sg(2) sh(1) ne by auto
  have qp: "q \<noteq> p" using q(2) oids(1) ne by (auto simp: p_def)
  have q16: "unat (of_nat q :: u16) = q" "q < max_objects fl"
    using q(1) bnd by (simp_all add: unat_of_nat16)
  have p16: "p < max_objects fl" using pn bnd by simp
  have sel: "length (indices fl') = max_objects fl" "length (objects fl') = max_objects fl"
    "objects fl' = ((objects fl)[p := Some lastv])[n - 1 := None]"
    using len by (simp_all add: fl')
  show ?thesis
  proof (cases "q = n - 1")
    case True
    with q(2) oids(2) have gl: "g = lid" by simp
    then have gm: "slot_of g = m" by (simp add: m_def)
    with gs have ms: "m \<noteq> s" by simp
    from True qp have pl: "p \<noteq> n - 1" by simp
    from True w(1) objs have wl: "w = lastv" by simp
    have nth: "indices fl' ! slot_of g = em" using ms mm(1) len by (simp add: fl' gm)
    have eml: "id_val em = g" "index em = Some ix" using mm(3) gl by (simp_all add: em_def)
    have "contains fl' g = Inr True"
      using sg(1) nth eml ix(2) by (intro contains_TrueI [where ix = ix]) (simp_all add: sel)
    moreover have "objects fl' ! p = Some lastv"
      using pl p16 len by (simp add: sel)
    then have "lookup fl' g = Inr lastv"
      using sg(1) nth eml p16 by (simp add: lookup_def sel(1,2) p_def [symmetric])
    ultimately show ?thesis using w wl by simp
  next
    case False
    have gm: "slot_of g \<noteq> m"
    proof
      assume "slot_of g = m"
      with q(3) mm(2) have "(of_nat q :: u16) = of_nat (n - 1)" by simp
      then have "q = n - 1" using q(1) bnd by (intro of_nat16_inj) simp_all
      with False show False by simp
    qed
    have nth: "indices fl' ! slot_of g = indices fl ! slot_of g"
      using gs gm by (simp add: fl')
    have "contains fl' g = Inr True"
      using sg nth q(3) q(1) bnd
      by (intro contains_TrueI [where ix = "of_nat q"]) (simp_all add: sel of_nat_neq_tomb)
    moreover have "objects fl' ! q = Some w"
      using False qp w(1) by (simp add: sel)
    then have "lookup fl' g = Inr w"
      using sg(1) nth q(3) q16 by (simp add: lookup_def sel(1,2))
    ultimately show ?thesis using w by simp
  qed
qed

lemma erase_count:
  assumes "wf fl" "contains fl h = Inr True" "erase fl h = Inr fl'"
  shows "num_objects fl' + 1 = num_objects fl \<and> contains fl' h = Inr False \<and>
         max_objects fl' = max_objects fl \<and> unat (enqueue fl') = slot_of h \<and>
         id_val (indices fl' ! slot_of h) = h \<and> index (indices fl' ! slot_of h) = Some tombstone"
proof -
  from assms(1,2) obtain ix lid lastv where
    ix: "unat ix < num_objects fl"
    and post: "erase fl h =
       Inr (fl\<lparr>num_objects := num_objects fl - 1,
               objects := ((objects fl)[unat ix := Some lastv])[num_objects fl - 1 := None],
               object_ids := (object_ids fl)[unat ix := Some lid],
               indices := ((indices fl)[slot_of lid := (indices fl ! slot_of lid)\<lparr>index := Some ix\<rparr>])
                  [slot_of h := \<lparr>id_val = h, index = Some tombstone, next_slot = enqueue fl\<rparr>],
               enqueue := ucast (h AND ucast index_mask)\<rparr>)"
    by (rule erase_post)
  have fl': "fl' = fl\<lparr>num_objects := num_objects fl - 1,
               objects := ((objects fl)[unat ix := Some lastv])[num_objects fl - 1 := None],
               object_ids := (object_ids fl)[unat ix := Some lid],
               indices := ((indices fl)[slot_of lid := (indices fl ! slot_of lid)\<lparr>index := Some ix\<rparr>])
                  [slot_of h := \<lparr>id_val = h, index = Some tombstone, next_slot = enqueue fl\<rparr>],
               enqueue := ucast (h AND ucast index_mask)\<rparr>"
    using assms(3) [symmetric] unfolding post by (simp only: sum.inject)
  from contains_TrueD [OF assms(2)] have s: "slot_of h < length (indices fl)" by simp
  show ?thesis
    using ix s by (simp add: fl' contains_def unat_ucast_slot)
qed

section \<open>What insertion establishes\<close>

lemma emplace_props:
  assumes wf: "wf fl" and em: "emplace fl v = Inr (fl', h)"
  shows "num_objects fl < max_objects fl \<and> num_objects fl' = num_objects fl + 1 \<and>
         max_objects fl' = max_objects fl \<and>
         h = id_val (indices fl ! unat (enqueue fl)) + new_object_id_add \<and>
         slot_of h = unat (enqueue fl) \<and> id_val (indices fl' ! slot_of h) = h \<and>
         (\<forall>x. x \<noteq> unat (enqueue fl) \<longrightarrow> indices fl' ! x = indices fl ! x) \<and>
         contains fl' h = Inr True \<and> lookup fl' h = Inr v"
proof -
  have lt: "num_objects fl < max_objects fl" using wf em by (rule emplace_InrD)
  define s where "s = unat (enqueue fl)"
  define n where "n = num_objects fl"
  define e' where "e' = (indices fl ! s)\<lparr>id_val := id_val (indices fl ! s) + new_object_id_add,
      index := Some (of_nat n)\<rparr>"
  from emplace_post [OF wf lt em]
  have fl': "fl' = fl\<lparr>enqueue := next_slot (indices fl ! s), indices := (indices fl)[s := e'],
       num_objects := n + 1, object_ids := (object_ids fl)[n := Some (id_val e')],
       objects := (objects fl)[n := Some v]\<rparr>"
    and h: "id_val e' = h"
    by (simp_all add: s_def n_def e'_def)
  from wf lt obtain xs where "free_ok fl (s # xs)"
    unfolding s_def by (rule wf_head)
  have len: "length (indices fl) = max_objects fl" "length (objects fl) = max_objects fl"
    using wf by (simp_all add: wf_def)
  with \<open>free_ok fl (s # xs)\<close> have s: "s < max_objects fl" by (simp add: free_ok_def)
  have "slot_ok fl s" using wf s by (simp add: wf_def)
  then have sh: "slot_of h = s"
    by (simp add: h [symmetric] e'_def slot_of_add slot_ok_def)
  have n16: "unat (of_nat n :: u16) = n" "(of_nat n :: u16) \<noteq> tombstone"
    using lt wf_bounds [OF wf] by (simp_all add: unat_of_nat16 of_nat_neq_tomb n_def)
  have nth: "indices fl' ! s = e'" using s len by (simp add: fl')
  have esel: "index e' = Some (of_nat n)" by (simp add: e'_def)
  have sel: "length (indices fl') = max_objects fl" "length (objects fl') = max_objects fl"
    "objects fl' ! n = Some v"
    using len lt by (simp_all add: fl' n_def)
  have c: "contains fl' h = Inr True"
    using s nth h esel n16(2)
    by (intro contains_TrueI [where ix = "of_nat n"]) (simp_all add: sh sel)
  have l: "lookup fl' h = Inr v"
    using s nth esel n16(1) sel lt by (simp add: lookup_def sh n_def [symmetric])
  have a1: "num_objects fl' = num_objects fl + 1" "max_objects fl' = max_objects fl"
    by (simp_all add: fl' n_def)
  have a3: "h = id_val (indices fl ! unat (enqueue fl)) + new_object_id_add"
    using h by (simp add: e'_def s_def)
  have a4: "slot_of h = unat (enqueue fl)"
    using sh by (simp add: s_def)
  have a5: "id_val (indices fl' ! slot_of h) = h"
    using nth h by (simp add: sh)
  have a6: "\<forall>x. x \<noteq> unat (enqueue fl) \<longrightarrow> indices fl' ! x = indices fl ! x"
    by (simp add: fl' s_def)
  from lt a1 a3 a4 a5 a6 c l show ?thesis
    by blast
qed

lemma emplace_succeeds:
  assumes "wf fl" "num_objects fl < max_objects fl"
  shows "\<exists>fl' h. emplace fl v = Inr (fl', h)"
  using emplace_Inr [OF assms, of v] by simp

section \<open>Generations of a slot along a run\<close>

lemma erase_slot_other:
  assumes wf: "wf fl" and c: "contains fl g = Inr True" and er: "erase fl g = Inr fl'"
    and x: "x \<noteq> slot_of g"
  shows "id_val (indices fl' ! x) = id_val (indices fl ! x) \<and>
         (index (indices fl ! x) = Some tombstone \<longrightarrow> index (indices fl' ! x) = Some tombstone)"
proof -
  define n where "n = num_objects fl"
  from wf c obtain ix lid lastv where
    ix: "unat ix < n" and oids: "object_ids fl ! (n - 1) = Some lid"
    and post: "erase fl g =
       Inr (fl\<lparr>num_objects := n - 1,
               objects := ((objects fl)[unat ix := Some lastv])[n - 1 := None],
               object_ids := (object_ids fl)[unat ix := Some lid],
               indices := ((indices fl)[slot_of lid := (indices fl ! slot_of lid)\<lparr>index := Some ix\<rparr>])
                  [slot_of g := \<lparr>id_val = g, index = Some tombstone, next_slot = enqueue fl\<rparr>],
               enqueue := ucast (g AND ucast index_mask)\<rparr>)"
    unfolding n_def by (rule erase_post)
  have inds: "indices fl' = ((indices fl)[slot_of lid := (indices fl ! slot_of lid)\<lparr>index := Some ix\<rparr>])
                  [slot_of g := \<lparr>id_val = g, index = Some tombstone, next_slot = enqueue fl\<rparr>]"
    using er unfolding post by auto
  have m: "slot_of lid < max_objects fl" "index (indices fl ! slot_of lid) = Some (of_nat (n - 1))"
    using occupied_not_free [OF wf, of "n - 1" lid] oids ix by (simp_all add: n_def)
  have "n \<le> max_objects fl" "max_objects fl < 65535"
    using wf_bounds [OF wf] by (simp_all add: n_def)
  then have "n - 1 < 65535" by linarith
  then have nt: "(of_nat (n - 1) :: u16) \<noteq> tombstone" by (rule of_nat_neq_tomb)
  have len: "length (indices fl) = max_objects fl" using wf by (simp add: wf_def)
  show ?thesis
  proof (cases "x = slot_of lid")
    case True
    with x m nt len show ?thesis by (simp add: inds)
  next
    case False
    with x show ?thesis by (simp add: inds)
  qed
qed

lemma gen_succ:
  "h + of_nat k * new_object_id_add + new_object_id_add = h + of_nat (k + 1) * new_object_id_add"
  by (simp add: algebra_simps)

lemma reuse_step:
  assumes wf: "wf fl" and st: "step obj_id fl x = Inr fl'"
    and s: "slot_of h < max_objects fl"
    and g: "id_val (indices fl ! slot_of h) = h + of_nat k * new_object_id_add"
    and t: "k = 0 \<longrightarrow> index (indices fl ! slot_of h) = Some tombstone"
  shows "slot_of h < max_objects fl' \<and>
     id_val (indices fl' ! slot_of h) =
       h + of_nat (k + (if is_alloc x \<and> unat (enqueue fl) = slot_of h then 1 else 0)) *
           new_object_id_add \<and>
     (k + (if is_alloc x \<and> unat (enqueue fl) = slot_of h then 1 else 0) = 0 \<longrightarrow>
        index (indices fl' ! slot_of h) = Some tombstone)"
proof -
  have alloc: ?thesis if em: "emplace fl v = Inr (fl', hn)" and a: "is_alloc x" for v hn
  proof -
    from emplace_props [OF wf em]
    have p: "max_objects fl' = max_objects fl"
      "hn = id_val (indices fl ! unat (enqueue fl)) + new_object_id_add"
      "slot_of hn = unat (enqueue fl)" "id_val (indices fl' ! slot_of hn) = hn"
      "\<forall>x. x \<noteq> unat (enqueue fl) \<longrightarrow> indices fl' ! x = indices fl ! x"
      by blast+
    show ?thesis
    proof (cases "unat (enqueue fl) = slot_of h")
      case True
      with p(2,3,4) g have "id_val (indices fl' ! slot_of h) =
          h + of_nat (k + 1) * new_object_id_add"
        by (simp only: gen_succ [symmetric])
      with True a s p(1) show ?thesis by simp
    next
      case False
      with p(5) have "indices fl' ! slot_of h = indices fl ! slot_of h" by simp
      with False s g t p(1) show ?thesis by simp
    qed
  qed
  show ?thesis
  proof (cases x)
    case (Insert v)
    with st obtain hn where "emplace fl v = Inr (fl', hn)"
      by (auto simp: insert_fl_emplace split: sum.splits)
    then show ?thesis using Insert by (intro alloc) simp_all
  next
    case (Emplace v)
    with st obtain hn where "emplace fl v = Inr (fl', hn)"
      by (auto split: sum.splits)
    then show ?thesis using Emplace by (intro alloc) simp_all
  next
    case (Erase e)
    with st have er: "erase fl e = Inr fl'" by simp
    have c: "contains fl e = Inr True" using er by (rule erase_InrD)
    from erase_count [OF wf c er]
    have p: "max_objects fl' = max_objects fl" "id_val (indices fl' ! slot_of e) = e"
      "index (indices fl' ! slot_of e) = Some tombstone"
      by simp_all
    show ?thesis
    proof (cases "slot_of h = slot_of e")
      case True
      from contains_TrueD [OF c] have "id_val (indices fl ! slot_of e) = e" by simp
      then have "id_val (indices fl ! slot_of h) = e" by (simp only: True)
      then have eq: "e = h + of_nat k * new_object_id_add" by (simp only: g)
      have q: "id_val (indices fl' ! slot_of h) = h + of_nat k * new_object_id_add"
        "index (indices fl' ! slot_of h) = Some tombstone"
        using p(2,3) by (simp_all only: True eq [symmetric])
      have "\<not> is_alloc x" using Erase by simp
      with q s p(1) show ?thesis by simp
    next
      case False
      from erase_slot_other [OF wf c er False] g t s p(1) Erase show ?thesis by simp
    qed
  qed
qed

lemma reuse_run:
  assumes "wf fl" "run obj_id fl xs = Inr fl'"
    and "slot_of h < max_objects fl"
    and "id_val (indices fl ! slot_of h) = h + of_nat k * new_object_id_add"
    and "k = 0 \<longrightarrow> index (indices fl ! slot_of h) = Some tombstone"
  shows "wf fl' \<and> slot_of h < max_objects fl' \<and>
     id_val (indices fl' ! slot_of h) =
       h + of_nat (k + reuses obj_id (slot_of h) fl xs) * new_object_id_add \<and>
     (k + reuses obj_id (slot_of h) fl xs = 0 \<longrightarrow>
        index (indices fl' ! slot_of h) = Some tombstone)"
  using assms
proof (induction xs arbitrary: fl k)
  case Nil
  then show ?case by simp
next
  case (Cons x xs)
  from Cons.prems(2) obtain fl1 where s: "step obj_id fl x = Inr fl1"
    and r: "run obj_id fl1 xs = Inr fl'"
    by (auto split: sum.splits)
  define d where "d = (if is_alloc x \<and> unat (enqueue fl) = slot_of h then 1 else 0 :: nat)"
  from reuse_step [OF Cons.prems(1) s Cons.prems(3,4,5)]
  have j: "slot_of h < max_objects fl1"
    "id_val (indices fl1 ! slot_of h) = h + of_nat (k + d) * new_object_id_add"
    "k + d = 0 \<longrightarrow> index (indices fl1 ! slot_of h) = Some tombstone"
    by (simp_all add: d_def)
  have "reuses obj_id (slot_of h) fl (x # xs) = d + reuses obj_id (slot_of h) fl1 xs"
    using s by (simp add: d_def)
  with Cons.IH [OF wf_step [OF Cons.prems(1) s] r j] show ?case
    by (simp add: add.assoc)
qed

lemma stale_contains:
  assumes "wf fl" "slot_of h < max_objects fl"
    and "id_val (indices fl ! slot_of h) = h + of_nat k * new_object_id_add"
    and "k = 0 \<longrightarrow> index (indices fl ! slot_of h) = Some tombstone"
    and "k < 65536"
  shows "contains fl h = Inr False"
proof -
  have len: "length (indices fl) = max_objects fl" using assms(1) by (simp add: wf_def)
  show ?thesis
  proof (cases "k = 0")
    case True
    with assms len show ?thesis by (simp add: contains_def)
  next
    case False
    with assms(5) have "(of_nat k * new_object_id_add :: u32) \<noteq> 0"
      by (intro gen_nonzero) simp_all
    then have "h + of_nat k * new_object_id_add \<noteq> h" by simp
    with assms(2,3) len show ?thesis by (simp add: contains_def)
  qed
qed

lemma erased_stays_stale:
  assumes wf: "wf fl" and er: "erase fl h = Inr fl0" and run: "run obj_id fl0 xs = Inr fl'"
    and lt: "reuses obj_id (slot_of h) fl0 xs < 65536"
  shows "contains fl' h = Inr False"
proof -
  have c: "contains fl h = Inr True" using er by (rule erase_InrD)
  have wf0: "wf fl0" using wf c er by (rule wf_erase)
  from contains_TrueD [OF c] wf have s: "slot_of h < max_objects fl" by (simp add: wf_def)
  from erase_count [OF wf c er] s
  have j: "slot_of h < max_objects fl0"
    "id_val (indices fl0 ! slot_of h) = h + of_nat 0 * new_object_id_add"
    "(0::nat) = 0 \<longrightarrow> index (indices fl0 ! slot_of h) = Some tombstone"
    by simp_all
  from reuse_run [OF wf0 run j]
  have "wf fl'" "slot_of h < max_objects fl'"
    "id_val (indices fl' ! slot_of h) =
       h + of_nat (reuses obj_id (slot_of h) fl0 xs) * new_object_id_add"
    "reuses obj_id (slot_of h) fl0 xs = 0 \<longrightarrow> index (indices fl' ! slot_of h) = Some tombstone"
    by simp_all
  then show ?thesis using lt by (rule stale_contains)
qed

section \<open>Capacity along a run, and a slot reused many times\<close>

lemma step_max:
  assumes "wf fl" "step obj_id fl x = Inr fl'"
  shows "max_objects fl' = max_objects fl"
proof (cases x)
  case (Insert v)
  with assms(2) obtain h where e: "emplace fl v = Inr (fl', h)"
    by (auto simp: insert_fl_emplace split: sum.splits)
  from emplace_props [OF assms(1) e] show ?thesis by simp
next
  case (Emplace v)
  with assms(2) obtain h where e: "emplace fl v = Inr (fl', h)"
    by (auto split: sum.splits)
  from emplace_props [OF assms(1) e] show ?thesis by simp
next
  case (Erase h)
  with assms(2) have e: "erase fl h = Inr fl'" by simp
  from erase_count [OF assms(1) erase_InrD [OF e] e] show ?thesis by simp
qed

lemma run_max: "wf fl \<Longrightarrow> run obj_id fl xs = Inr fl' \<Longrightarrow> max_objects fl' = max_objects fl"
proof (induction xs arbitrary: fl)
  case Nil
  then show ?case by simp
next
  case (Cons x xs)
  from Cons.prems(2) obtain fl1 where s: "step obj_id fl x = Inr fl1"
    and r: "run obj_id fl1 xs = Inr fl'"
    by (auto split: sum.splits)
  from Cons.IH [OF wf_step [OF Cons.prems(1) s] r] step_max [OF Cons.prems(1) s]
  show ?case by simp
qed

lemma reachable_capacity:
  assumes "reachable obj_id c xs fl"
  shows "max_objects fl = c \<and> c < 65535"
proof -
  from assms have c: "c < 65535" and run: "run obj_id (init_pool c) xs = Inr fl"
    by (auto simp: reachable_def freelist_new_def split: if_splits)
  from run_max [OF wf_init_pool [OF c] run] c show ?thesis
    by (simp add: init_pool_def)
qed

lemma churn_round:
  assumes "slot_of g = 0"
  shows "run obj_id (one_slot_pool g v) [Erase g, Emplace v] =
         Inr (one_slot_pool (g + new_object_id_add) v)"
proof -
  have "unat (ucast (g AND ucast index_mask) :: u16) = 0"
    using assms by (simp add: unat_ucast_slot)
  then have z: "(ucast (g AND ucast index_mask) :: u16) = 0"
    by (simp add: unat_eq_0)
  have c: "contains (one_slot_pool g v) g = Inr True"
    using assms by (simp add: contains_def one_slot_pool_def tombstone_def)
  have e: "erase (one_slot_pool g v) g =
      Inr \<lparr>num_objects = 0, max_objects = 1, cap_objects = 1, objects = [None],
        object_ids = [Some g],
        indices = [\<lparr>id_val = g, index = Some tombstone, next_slot = 1\<rparr>], enqueue = 0\<rparr>"
    using assms unfolding erase_def c
    by (simp add: one_slot_pool_def z Let_def)
  have "emplace \<lparr>num_objects = 0, max_objects = 1, cap_objects = 1, objects = [None],
        object_ids = [Some g],
        indices = [\<lparr>id_val = g, index = Some tombstone, next_slot = 1\<rparr>], enqueue = 0\<rparr> v =
      Inr (one_slot_pool (g + new_object_id_add) v, g + new_object_id_add)"
    by (simp add: emplace_def insert_alloc_def construct_at_def one_slot_pool_def)
  with e show ?thesis by simp
qed

lemma run_append:
  "run obj_id fl (xs @ ys) =
     (case run obj_id fl xs of Inl err \<Rightarrow> Inl err | Inr fl' \<Rightarrow> run obj_id fl' ys)"
  by (induction xs arbitrary: fl) (auto split: sum.splits)

lemma churn_run:
  "slot_of g = 0 \<Longrightarrow>
   run obj_id (one_slot_pool g v) (churn g v k) =
     Inr (one_slot_pool (g + of_nat k * new_object_id_add) v)"
proof (induction k arbitrary: g)
  case 0
  then show ?case by simp
next
  case (Suc k)
  have s: "slot_of (g + new_object_id_add) = 0"
    using Suc.prems by (simp add: slot_of_add)
  have "run obj_id (one_slot_pool g v) (churn g v (Suc k)) =
        run obj_id (one_slot_pool g v) ([Erase g, Emplace v] @ churn (g + new_object_id_add) v k)"
    by simp
  also have "\<dots> = run obj_id (one_slot_pool (g + new_object_id_add) v)
        (churn (g + new_object_id_add) v k)"
    unfolding run_append churn_round [OF Suc.prems] by simp
  also have "\<dots> = Inr (one_slot_pool (g + new_object_id_add + of_nat k * new_object_id_add) v)"
    by (rule Suc.IH [OF s])
  also have "g + new_object_id_add + of_nat k * new_object_id_add =
             g + of_nat (Suc k) * new_object_id_add"
    by (simp add: algebra_simps)
  finally show ?case .
qed

section \<open>The invariants of a reachable pool, in one place\<close>

lemma chain_bound: "chain inds a xs b \<Longrightarrow> \<forall>x\<in>set xs. x < length inds"
  by (induction xs arbitrary: a) auto

lemma free_list_covers:
  assumes wf: "wf fl" and fs: "free_ok fl fs"
  shows "set fs = {s. s < max_objects fl \<and> is_free (indices fl ! s)}"
proof -
  define n where "n = num_objects fl"
  define C where "C = max_objects fl"
  define F where "F = {s. s < C \<and> is_free (indices fl ! s)}"
  define f where "f = (\<lambda>q. slot_of (the (object_ids fl ! q)))"
  define occ_slots where "occ_slots = f ` {0..<n}"
  have len: "length (indices fl) = C" using wf by (simp add: wf_def C_def)
  have bnd: "n \<le> C" "C < 65535" using wf_bounds [OF wf] by (simp_all add: n_def C_def)
  have occ: "index (indices fl ! f q) = Some (of_nat q) \<and> f q < C \<and> \<not> is_free (indices fl ! f q)"
    if "q < n" for q
  proof -
    from live_contains [OF wf, of q] that obtain g where g: "object_ids fl ! q = Some g"
      by (auto simp: n_def)
    from occupied_not_free [OF wf _ g] that show ?thesis
      by (simp add: f_def g n_def C_def)
  qed
  have inj: "inj_on f {0..<n}"
  proof (rule inj_onI)
    fix a b assume ab: "a \<in> {0..<n}" "b \<in> {0..<n}" "f a = f b"
    with occ [of a] occ [of b] have "(of_nat a :: u16) = of_nat b" by simp
    then show "a = b" using ab bnd by (intro of_nat16_inj) simp_all
  qed
  then have cO: "card occ_slots = n" by (simp add: occ_slots_def card_image)
  have sO: "occ_slots \<subseteq> {0..<C}" and sF: "F \<subseteq> {0..<C}"
    and dj: "F \<inter> occ_slots = {}"
    using occ by (auto simp: occ_slots_def F_def)
  have fin: "finite F" "finite occ_slots"
    using sO sF by (auto intro: finite_subset [of _ "{0..<C}"])
  have "card (F \<union> occ_slots) \<le> card {0..<C}"
    using sO sF by (intro card_mono) auto
  moreover have "card (F \<union> occ_slots) = card F + card occ_slots"
    using fin dj by (rule card_Un_disjoint)
  ultimately have "card F + card occ_slots \<le> C" by simp
  with cO have cF: "card F \<le> C - n" by simp
  have sub: "set fs \<subseteq> F"
    using fs chain_bound [of "indices fl" "unat (enqueue fl)" fs C] len
    by (auto simp: free_ok_def F_def C_def)
  have "card (set fs) = C - n"
    using fs by (auto simp: free_ok_def distinct_card n_def C_def)
  with cF have "card F \<le> card (set fs)" by simp
  moreover have "finite F" by (simp add: F_def)
  ultimately have "set fs = F" using sub by (intro card_seteq)
  then show ?thesis by (simp add: F_def C_def)
qed

lemma reachable_invariants:
  assumes "reachable obj_id c ops fl"
  shows "max_objects fl = c \<and> num_objects fl \<le> c \<and>
         (\<forall>s ix. s < c \<and> index (indices fl ! s) = Some ix \<and> ix \<noteq> tombstone \<longrightarrow>
            unat ix < num_objects fl \<and>
            object_ids fl ! unat ix = Some (id_val (indices fl ! s))) \<and>
         (\<exists>fs. chain (indices fl) (unat (enqueue fl)) fs c \<and> distinct fs \<and>
            set fs = {s. s < c \<and> is_free (indices fl ! s)})"
proof -
  have wf: "wf fl" using assms by (rule reachable_wf)
  have c: "max_objects fl = c" using reachable_capacity [OF assms] by simp
  from wf obtain fs where fs: "free_ok fl fs" by (auto simp: wf_def)
  have "unat ix < num_objects fl \<and> object_ids fl ! unat ix = Some (id_val (indices fl ! s))"
    if "s < c \<and> index (indices fl ! s) = Some ix \<and> ix \<noteq> tombstone" for s ix
  proof -
    from that wf c have "slot_ok fl s" by (simp add: wf_def)
    with that show ?thesis by (simp add: slot_ok_def)
  qed
  moreover have "chain (indices fl) (unat (enqueue fl)) fs c \<and> distinct fs \<and>
      set fs = {s. s < c \<and> is_free (indices fl ! s)}"
    using fs free_list_covers [OF wf fs] c by (simp add: free_ok_def)
  ultimately show ?thesis
    using c wf_bounds [OF wf] by blast
qed

lemma emplace_returns_valid:
  assumes "reachable obj_id c ops fl" "num_objects fl < c"
  shows "\<exists>fl' h. emplace fl v = Inr (fl', h) \<and> contains fl' h = Inr True \<and>
     lookup fl' h = Inr v \<and> insert_fl obj_id fl v = Inr (fl', obj_id v)"
proof -
  have wf: "wf fl" using assms(1) by (rule reachable_wf)
  have "num_objects fl < max_objects fl"
    using assms(2) reachable_capacity [OF assms(1)] by simp
  from emplace_succeeds [OF wf this, of v] obtain fl' h where
    em: "emplace fl v = Inr (fl', h)" by blast
  from emplace_props [OF wf em] have "contains fl' h = Inr True" "lookup fl' h = Inr v"
    by blast+
  moreover have "insert_fl obj_id fl v = Inr (fl', obj_id v)"
    using em by (simp add: insert_fl_emplace)
  ultimately show ?thesis using em by blast
qed

lemma full_pool_insert:
  assumes "reachable obj_id c ops fl" "num_objects fl = c"
  shows "emplace fl v = Inl OutOfBounds \<and> insert_fl obj_id fl v = Inl OutOfBounds"
proof -
  have wf: "wf fl" using assms(1) by (rule reachable_wf)
  have "num_objects fl = max_objects fl"
    using assms(2) reachable_capacity [OF assms(1)] by simp
  from emplace_full [OF wf this, of v] show ?thesis
    by (simp add: insert_fl_emplace)
qed

section \<open>Construction and move\<close>

text \<open>C7 as stated fails: the constructor asserts \<^verbatim>\<open>max_objects < 0xFFFF\<close>, so capacity
  65535 is refused although it is below 65536, and capacity 0 is accepted although it is
  below 1.\<close>

theorem C7_counterexample:
  "(freelist_new 65535 :: error + nat freelist_t) = Inl AssertionFailed \<and>
   (freelist_new 0 :: error + nat freelist_t) = Inr (init_pool 0)"
  by (simp add: freelist_new_def)

text \<open>C7, amended: construction accepts exactly the capacities \<open>c < 65535\<close> (0 included).
  For every such \<open>c\<close> the assertion passes and an empty pool with three arrays of \<open>c\<close>
  cells is produced; every capacity from 65535 on fails the assertion.\<close>

theorem C7_capacity:
  "(c < 65535 \<longrightarrow>
      (\<exists>fl :: 'a freelist_t. freelist_new c = Inr fl \<and> num_objects fl = 0 \<and>
         max_objects fl = c \<and> cap_objects fl = c \<and> length (indices fl) = c \<and>
         length (object_ids fl) = c \<and> length (objects fl) = c)) \<and>
   (65535 \<le> c \<longrightarrow> (freelist_new c :: error + 'a freelist_t) = Inl AssertionFailed)"
  by (simp add: freelist_new_def init_pool_def)

theorem C7_capacity_witness:
  "(\<exists>fl :: nat freelist_t. freelist_new 65534 = Inr fl \<and> num_objects fl = 0 \<and>
      max_objects fl = 65534 \<and> cap_objects fl = 65534 \<and> length (indices fl) = 65534 \<and>
      length (object_ids fl) = 65534 \<and> length (objects fl) = 65534) \<and>
   (freelist_new 65536 :: error + nat freelist_t) = Inl AssertionFailed"
  using C7_capacity [where ?'a = nat, of 65534] C7_capacity [where ?'a = nat, of 65536]
  by simp

text \<open>C9 as stated fails for move assignment: it swaps, so the source receives what the
  destination held. Assigning a pool of capacity 2 into a pool of capacity 1 leaves the
  source with capacity 1, not 0.\<close>

theorem C9_counterexample:
  "max_objects (snd (move_assign (init_pool 1 :: nat freelist_t) (init_pool 2))) = 1"
  by (simp add: move_assign_def swap_fl_def init_pool_def)

text \<open>C9, amended: move construction from \<open>S\<close> yields a pool equal to \<open>S\<close> and leaves the
  source as a default-constructed pool, empty and of capacity zero. Move assignment from
  \<open>S\<close> into a distinct destination \<open>D\<close> gives the destination the contents of \<open>S\<close> and
  leaves the source with the former contents of \<open>D\<close>.\<close>

theorem C9_move:
  "move_construct S = (S, freelist_empty) \<and> move_assign D S = (S, D) \<and>
   num_objects (snd (move_construct S)) = 0 \<and> max_objects (snd (move_construct S)) = 0 \<and>
   cap_objects (snd (move_construct S)) = 0"
  by (simp add: move_construct_def move_assign_def swap_fl_def freelist_empty_def)

section \<open>Insertion at full capacity\<close>

text \<open>C4 at a full pool of capacity 1. The first \<^verbatim>\<open>emplace\<close> fills the pool. The
  assertion of \<^verbatim>\<open>insert_alloc\<close> is \<^verbatim>\<open>_num_objects <= _max_objects\<close>, which a full pool
  passes; the next \<^verbatim>\<open>emplace\<close> or \<^verbatim>\<open>insert\<close> goes on to \<^verbatim>\<open>_indices[_enqueue]\<close> with
  \<^verbatim>\<open>_enqueue == 1\<close>, outside the slot table, instead of failing the assertion.\<close>

theorem C4_full_pool:
  "emplace (init_pool 1 :: u32 freelist_t) 7 =
     Inr (\<lparr>num_objects = 1, max_objects = 1, cap_objects = 1, objects = [Some 7],
           object_ids = [Some 0x10000],
           indices = [\<lparr>id_val = 0x10000, index = Some 0, next_slot = 1\<rparr>],
           enqueue = 1\<rparr>, 0x10000) \<and>
   emplace \<lparr>num_objects = 1, max_objects = 1, cap_objects = 1, objects = [Some (7 :: u32)],
            object_ids = [Some 0x10000],
            indices = [\<lparr>id_val = 0x10000, index = Some 0, next_slot = 1\<rparr>],
            enqueue = 1\<rparr> 8 = Inl OutOfBounds \<and>
   insert_fl (\<lambda>v. v) \<lparr>num_objects = 1, max_objects = 1, cap_objects = 1,
            objects = [Some (7 :: u32)], object_ids = [Some 0x10000],
            indices = [\<lparr>id_val = 0x10000, index = Some 0, next_slot = 1\<rparr>],
            enqueue = 1\<rparr> 8 = Inl OutOfBounds"
  by code_simp

section \<open>The handle that insert returns\<close>

text \<open>C1 at a fresh pool of capacity 1 whose values are their own \<^verbatim>\<open>id\<close> member.
  \<^verbatim>\<open>insert\<close> of the value with \<^verbatim>\<open>id == 0\<close> returns \<^verbatim>\<open>o->id\<close>, which is 0, while the
  slot received the id \<^verbatim>\<open>0x10000\<close>: \<^verbatim>\<open>contains\<close> of the returned handle is false.
  \<^verbatim>\<open>emplace\<close> in the same state returns \<^verbatim>\<open>in->id\<close>, which \<^verbatim>\<open>contains\<close> accepts and
  \<^verbatim>\<open>operator[]\<close> maps to the value.\<close>

theorem C1_insert_returns_member_id:
  "insert_fl (\<lambda>v. v) (init_pool 1 :: u32 freelist_t) 0 =
     Inr (\<lparr>num_objects = 1, max_objects = 1, cap_objects = 1, objects = [Some 0],
           object_ids = [Some 0x10000],
           indices = [\<lparr>id_val = 0x10000, index = Some 0, next_slot = 1\<rparr>],
           enqueue = 1\<rparr>, 0) \<and>
   contains \<lparr>num_objects = 1, max_objects = 1, cap_objects = 1, objects = [Some (0 :: u32)],
           object_ids = [Some 0x10000],
           indices = [\<lparr>id_val = 0x10000, index = Some 0, next_slot = 1\<rparr>],
           enqueue = 1\<rparr> 0 = Inr False \<and>
   emplace (init_pool 1 :: u32 freelist_t) 0 =
     Inr (\<lparr>num_objects = 1, max_objects = 1, cap_objects = 1, objects = [Some 0],
           object_ids = [Some 0x10000],
           indices = [\<lparr>id_val = 0x10000, index = Some 0, next_slot = 1\<rparr>],
           enqueue = 1\<rparr>, 0x10000) \<and>
   contains \<lparr>num_objects = 1, max_objects = 1, cap_objects = 1, objects = [Some (0 :: u32)],
           object_ids = [Some 0x10000],
           indices = [\<lparr>id_val = 0x10000, index = Some 0, next_slot = 1\<rparr>],
           enqueue = 1\<rparr> 0x10000 = Inr True \<and>
   lookup \<lparr>num_objects = 1, max_objects = 1, cap_objects = 1, objects = [Some (0 :: u32)],
           object_ids = [Some 0x10000],
           indices = [\<lparr>id_val = 0x10000, index = Some 0, next_slot = 1\<rparr>],
           enqueue = 1\<rparr> 0x10000 = Inr 0"
  by code_simp

section \<open>Swap-and-pop and iteration\<close>

lemma erase_succeeds:
  assumes "wf fl" "contains fl h = Inr True"
  shows "\<exists>fl'. erase fl h = Inr fl'"
proof -
  from assms obtain ix lid lastv where
    "erase fl h =
       Inr (fl\<lparr>num_objects := num_objects fl - 1,
               objects := ((objects fl)[unat ix := Some lastv])[num_objects fl - 1 := None],
               object_ids := (object_ids fl)[unat ix := Some lid],
               indices := ((indices fl)[slot_of lid := (indices fl ! slot_of lid)\<lparr>index := Some ix\<rparr>])
                  [slot_of h := \<lparr>id_val = h, index = Some tombstone, next_slot = enqueue fl\<rparr>],
               enqueue := ucast (h AND ucast index_mask)\<rparr>)"
    by (rule erase_post)
  then show ?thesis ..
qed

text \<open>C6: in every reachable pool, for every handle \<open>h\<close> that \<^verbatim>\<open>contains\<close> accepts,
  \<^verbatim>\<open>erase(h)\<close> completes, the count goes down by exactly 1, and every other handle that
  \<^verbatim>\<open>contains\<close> accepted is still accepted and looks up the same value as before. This
  holds wherever \<open>h\<close> lies in the dense storage, so in particular when its dense position
  is not \<open>count - 1\<close> and the last value is moved into its place.\<close>

theorem C6_swap_and_pop:
  assumes "reachable obj_id c ops fl" and "contains fl h = Inr True"
  shows "\<exists>fl'. erase fl h = Inr fl' \<and> num_objects fl' + 1 = num_objects fl \<and>
     (\<forall>g. g \<noteq> h \<and> contains fl g = Inr True \<longrightarrow>
        contains fl' g = Inr True \<and> (\<exists>v. lookup fl g = Inr v \<and> lookup fl' g = Inr v))"
proof -
  have wf: "wf fl" using assms(1) by (rule reachable_wf)
  from erase_succeeds [OF wf assms(2)] obtain fl' where er: "erase fl h = Inr fl'" ..
  have "num_objects fl' + 1 = num_objects fl"
    using erase_count [OF wf assms(2) er] by simp
  moreover have "contains fl' g = Inr True \<and> (\<exists>v. lookup fl g = Inr v \<and> lookup fl' g = Inr v)"
    if "g \<noteq> h \<and> contains fl g = Inr True" for g
    using erase_frame [OF wf assms(2) er, of g] that by auto
  ultimately show ?thesis using er by blast
qed

theorem C6_swap_and_pop_witness:
  "reachable (\<lambda>v. v) 3 [Emplace 7, Emplace 8, Emplace 9]
     \<lparr>num_objects = 3, max_objects = 3, cap_objects = 3,
      objects = [Some (7::u32), Some 8, Some 9],
      object_ids = [Some 0x10000, Some 0x10001, Some 0x10002],
      indices = [\<lparr>id_val = 0x10000, index = Some 0, next_slot = 1\<rparr>,
                 \<lparr>id_val = 0x10001, index = Some 1, next_slot = 2\<rparr>,
                 \<lparr>id_val = 0x10002, index = Some 2, next_slot = 3\<rparr>],
      enqueue = 3\<rparr> \<and>
   contains \<lparr>num_objects = 3, max_objects = 3, cap_objects = 3,
      objects = [Some (7::u32), Some 8, Some 9],
      object_ids = [Some 0x10000, Some 0x10001, Some 0x10002],
      indices = [\<lparr>id_val = 0x10000, index = Some 0, next_slot = 1\<rparr>,
                 \<lparr>id_val = 0x10001, index = Some 1, next_slot = 2\<rparr>,
                 \<lparr>id_val = 0x10002, index = Some 2, next_slot = 3\<rparr>],
      enqueue = 3\<rparr> 0x10000 = Inr True \<and>
   (\<exists>fl'. erase \<lparr>num_objects = 3, max_objects = 3, cap_objects = 3,
      objects = [Some (7::u32), Some 8, Some 9],
      object_ids = [Some 0x10000, Some 0x10001, Some 0x10002],
      indices = [\<lparr>id_val = 0x10000, index = Some 0, next_slot = 1\<rparr>,
                 \<lparr>id_val = 0x10001, index = Some 1, next_slot = 2\<rparr>,
                 \<lparr>id_val = 0x10002, index = Some 2, next_slot = 3\<rparr>],
      enqueue = 3\<rparr> 0x10000 = Inr fl' \<and> num_objects fl' + 1 = 3 \<and>
      contains fl' 0x10002 = Inr True \<and> lookup fl' 0x10002 = Inr 9 \<and>
      contains fl' 0x10001 = Inr True \<and> lookup fl' 0x10001 = Inr 8)"
proof -
  define fl :: "u32 freelist_t" where "fl =
     \<lparr>num_objects = 3, max_objects = 3, cap_objects = 3,
      objects = [Some (7::u32), Some 8, Some 9],
      object_ids = [Some 0x10000, Some 0x10001, Some 0x10002],
      indices = [\<lparr>id_val = 0x10000, index = Some 0, next_slot = 1\<rparr>,
                 \<lparr>id_val = 0x10001, index = Some 1, next_slot = 2\<rparr>,
                 \<lparr>id_val = 0x10002, index = Some 2, next_slot = 3\<rparr>],
      enqueue = 3\<rparr>"
  have "run (\<lambda>v. v) (init_pool 3) [Emplace 7, Emplace 8, Emplace 9] = Inr fl"
    unfolding fl_def by code_simp
  then have r: "reachable (\<lambda>v. v) 3 [Emplace 7, Emplace 8, Emplace 9] fl"
    by (simp add: reachable_def freelist_new_def)
  have c: "contains fl 0x10000 = Inr True"
    unfolding fl_def by code_simp
  have c1: "contains fl 0x10001 = Inr True" "contains fl 0x10002 = Inr True"
    "lookup fl 0x10001 = Inr 8" "lookup fl 0x10002 = Inr 9"
    unfolding fl_def by code_simp+
  from C6_swap_and_pop [OF r c] obtain fl' where
    e: "erase fl 0x10000 = Inr fl'" "num_objects fl' + 1 = num_objects fl"
    and f: "\<forall>g. g \<noteq> 0x10000 \<and> contains fl g = Inr True \<longrightarrow>
        contains fl' g = Inr True \<and> (\<exists>v. lookup fl g = Inr v \<and> lookup fl' g = Inr v)"
    by blast
  from f [rule_format, of "0x10001"] f [rule_format, of "0x10002"] c1
  have "contains fl' 0x10002 = Inr True \<and> lookup fl' 0x10002 = Inr 9 \<and>
      contains fl' 0x10001 = Inr True \<and> lookup fl' 0x10001 = Inr 8"
    by auto
  with e have "\<exists>fl'. erase fl 0x10000 = Inr fl' \<and> num_objects fl' + 1 = 3 \<and>
      contains fl' 0x10002 = Inr True \<and> lookup fl' 0x10002 = Inr 9 \<and>
      contains fl' 0x10001 = Inr True \<and> lookup fl' 0x10001 = Inr 8"
    by (auto simp: fl_def)
  with r c show ?thesis
    unfolding fl_def by (intro conjI)
qed

text \<open>C8: in every reachable pool, the loop from \<^verbatim>\<open>begin()\<close> to \<^verbatim>\<open>end()\<close> completes and
  yields the handles at the dense positions \<open>0, \<dots>, count - 1\<close> in that order: exactly
  \<open>count\<close> of them, no handle twice, and a handle is among them if and only if
  \<^verbatim>\<open>contains\<close> accepts it.\<close>

theorem C8_iteration:
  assumes "reachable obj_id c ops fl"
  shows "\<exists>hs. handles fl = Inr hs \<and>
     hs = map (\<lambda>q. the (object_ids fl ! q)) [0..<num_objects fl] \<and>
     length hs = num_objects fl \<and> distinct hs \<and>
     (\<forall>h. h \<in> set hs \<longleftrightarrow> contains fl h = Inr True)"
  using handles_props [OF reachable_wf [OF assms]] .

theorem C8_iteration_witness:
  "reachable (\<lambda>v. v) 3 [Emplace 7, Emplace 8, Erase 0x10000, Emplace 9]
     \<lparr>num_objects = 2, max_objects = 3, cap_objects = 3,
      objects = [Some (8::u32), Some 9, None],
      object_ids = [Some 0x10001, Some 0x20000, None],
      indices = [\<lparr>id_val = 0x20000, index = Some 1, next_slot = 2\<rparr>,
                 \<lparr>id_val = 0x10001, index = Some 0, next_slot = 2\<rparr>,
                 \<lparr>id_val = 2, index = None, next_slot = 3\<rparr>],
      enqueue = 2\<rparr> \<and>
   handles \<lparr>num_objects = 2, max_objects = 3, cap_objects = 3,
      objects = [Some (8::u32), Some 9, None],
      object_ids = [Some 0x10001, Some 0x20000, None],
      indices = [\<lparr>id_val = 0x20000, index = Some 1, next_slot = 2\<rparr>,
                 \<lparr>id_val = 0x10001, index = Some 0, next_slot = 2\<rparr>,
                 \<lparr>id_val = 2, index = None, next_slot = 3\<rparr>],
      enqueue = 2\<rparr> = Inr [0x10001, 0x20000] \<and>
   contains \<lparr>num_objects = 2, max_objects = 3, cap_objects = 3,
      objects = [Some (8::u32), Some 9, None],
      object_ids = [Some 0x10001, Some 0x20000, None],
      indices = [\<lparr>id_val = 0x20000, index = Some 1, next_slot = 2\<rparr>,
                 \<lparr>id_val = 0x10001, index = Some 0, next_slot = 2\<rparr>,
                 \<lparr>id_val = 2, index = None, next_slot = 3\<rparr>],
      enqueue = 2\<rparr> 0x10000 = Inr False"
proof -
  define fl :: "u32 freelist_t" where "fl =
     \<lparr>num_objects = 2, max_objects = 3, cap_objects = 3,
      objects = [Some (8::u32), Some 9, None],
      object_ids = [Some 0x10001, Some 0x20000, None],
      indices = [\<lparr>id_val = 0x20000, index = Some 1, next_slot = 2\<rparr>,
                 \<lparr>id_val = 0x10001, index = Some 0, next_slot = 2\<rparr>,
                 \<lparr>id_val = 2, index = None, next_slot = 3\<rparr>],
      enqueue = 2\<rparr>"
  have "run (\<lambda>v. v) (init_pool 3) [Emplace 7, Emplace 8, Erase 0x10000, Emplace 9] = Inr fl"
    unfolding fl_def by code_simp
  then have r: "reachable (\<lambda>v. v) 3 [Emplace 7, Emplace 8, Erase 0x10000, Emplace 9] fl"
    by (simp add: reachable_def freelist_new_def)
  from C8_iteration [OF r] obtain hs where
    hs: "handles fl = Inr hs" "hs = map (\<lambda>q. the (object_ids fl ! q)) [0..<num_objects fl]"
    and m: "\<forall>h. h \<in> set hs \<longleftrightarrow> contains fl h = Inr True"
    by blast
  have "hs = [0x10001, 0x20000]"
    unfolding hs(2) fl_def by code_simp
  moreover have "contains fl 0x10000 = Inr False"
    unfolding fl_def by code_simp
  ultimately show ?thesis
    using r hs(1) unfolding fl_def by (intro conjI) simp_all
qed

section \<open>Erased handles and the wrap-around of generations\<close>

text \<open>C5 as stated fails: the id of a slot is a 32-bit value that grows by \<open>0x10000\<close> at
  each reuse, so 65536 reuses bring it back. In a pool of capacity 1, the handle
  \<open>0x10000\<close> is issued, erased, and the slot is then reused 65536 times (one \<^verbatim>\<open>emplace\<close>,
  then 65535 rounds of \<^verbatim>\<open>erase\<close> and \<^verbatim>\<open>emplace\<close>): the pool is again the one in which
  \<open>0x10000\<close> was valid, and \<^verbatim>\<open>contains\<close> accepts the erased handle.\<close>

theorem C5_counterexample:
  "emplace (init_pool 1 :: u32 freelist_t) 7 = Inr (one_slot_pool 0x10000 7, 0x10000) \<and>
   erase (one_slot_pool 0x10000 (7::u32)) 0x10000 =
     Inr \<lparr>num_objects = 0, max_objects = 1, cap_objects = 1, objects = [None],
          object_ids = [Some 0x10000],
          indices = [\<lparr>id_val = 0x10000, index = Some 0xFFFF, next_slot = 1\<rparr>],
          enqueue = 0\<rparr> \<and>
   run (\<lambda>v. v)
     \<lparr>num_objects = 0, max_objects = 1, cap_objects = 1, objects = [None],
      object_ids = [Some 0x10000],
      indices = [\<lparr>id_val = 0x10000, index = Some 0xFFFF, next_slot = 1\<rparr>],
      enqueue = 0\<rparr>
     (Emplace 7 # churn 0x20000 7 65535) = Inr (one_slot_pool 0x10000 (7::u32)) \<and>
   contains (one_slot_pool 0x10000 (7::u32)) 0x10000 = Inr True"
proof -
  have a: "emplace (init_pool 1 :: u32 freelist_t) 7 = Inr (one_slot_pool 0x10000 7, 0x10000)"
    by code_simp
  have b: "erase (one_slot_pool 0x10000 (7::u32)) 0x10000 =
     Inr \<lparr>num_objects = 0, max_objects = 1, cap_objects = 1, objects = [None],
          object_ids = [Some 0x10000],
          indices = [\<lparr>id_val = 0x10000, index = Some 0xFFFF, next_slot = 1\<rparr>],
          enqueue = 0\<rparr>"
    by code_simp
  have c: "emplace \<lparr>num_objects = 0, max_objects = 1, cap_objects = 1, objects = [None],
      object_ids = [Some 0x10000],
      indices = [\<lparr>id_val = 0x10000, index = Some 0xFFFF, next_slot = 1\<rparr>],
      enqueue = 0\<rparr> (7::u32) = Inr (one_slot_pool 0x20000 7, 0x20000)"
    by code_simp
  have s: "slot_of 0x20000 = 0"
    by code_simp
  have w: "(0x20000 + of_nat 65535 * new_object_id_add :: u32) = 0x10000"
    by (simp add: new_object_id_add_def)
  have d: "run (\<lambda>v. v) (one_slot_pool 0x20000 (7::u32)) (churn 0x20000 7 65535) =
      Inr (one_slot_pool 0x10000 7)"
    using churn_run [OF s, of "\<lambda>v. v" 7 65535] by (simp only: w)
  have e: "contains (one_slot_pool 0x10000 (7::u32)) 0x10000 = Inr True"
    by code_simp
  have "run (\<lambda>v. v)
     \<lparr>num_objects = 0, max_objects = 1, cap_objects = 1, objects = [None],
      object_ids = [Some 0x10000],
      indices = [\<lparr>id_val = 0x10000, index = Some 0xFFFF, next_slot = 1\<rparr>],
      enqueue = 0\<rparr>
     (Emplace 7 # churn 0x20000 7 65535) = Inr (one_slot_pool 0x10000 (7::u32))"
    using d by (simp only: run.simps step.simps c sum.case prod.case)
  with a b e show ?thesis by (intro conjI)
qed

text \<open>C5, amended: for every handle \<open>h\<close> erased from a reachable pool, \<^verbatim>\<open>contains(h)\<close> is
  false in the state after the \<^verbatim>\<open>erase\<close> and in every state reached from it by further
  operations that take the slot of \<open>h\<close> from the free list fewer than 65536 times; every
  handle that \<^verbatim>\<open>contains\<close> accepts in such a state differs from \<open>h\<close>.\<close>

theorem C5_stale_until_wrap:
  assumes "reachable obj_id c ops fl" and "erase fl h = Inr fl0"
    and "run obj_id fl0 xs = Inr fl'" and "reuses obj_id (slot_of h) fl0 xs < 65536"
  shows "contains fl' h = Inr False \<and> (\<forall>g. contains fl' g = Inr True \<longrightarrow> g \<noteq> h)"
proof -
  have "contains fl' h = Inr False"
    using reachable_wf [OF assms(1)] assms(2,3,4) by (rule erased_stays_stale)
  then show ?thesis by auto
qed

theorem C5_stale_until_wrap_witness:
  "reachable (\<lambda>v. v) 1 [Emplace 7] (one_slot_pool 0x10000 (7::u32)) \<and>
   erase (one_slot_pool 0x10000 (7::u32)) 0x10000 =
     Inr \<lparr>num_objects = 0, max_objects = 1, cap_objects = 1, objects = [None],
          object_ids = [Some 0x10000],
          indices = [\<lparr>id_val = 0x10000, index = Some 0xFFFF, next_slot = 1\<rparr>],
          enqueue = 0\<rparr> \<and>
   run (\<lambda>v. v)
     \<lparr>num_objects = 0, max_objects = 1, cap_objects = 1, objects = [None],
      object_ids = [Some 0x10000],
      indices = [\<lparr>id_val = 0x10000, index = Some 0xFFFF, next_slot = 1\<rparr>],
      enqueue = 0\<rparr>
     [Emplace 8, Erase 0x20000, Emplace 9] = Inr (one_slot_pool 0x30000 (9::u32)) \<and>
   reuses (\<lambda>v. v) (slot_of 0x10000)
     \<lparr>num_objects = 0, max_objects = 1, cap_objects = 1, objects = [None :: u32 option],
      object_ids = [Some 0x10000],
      indices = [\<lparr>id_val = 0x10000, index = Some 0xFFFF, next_slot = 1\<rparr>],
      enqueue = 0\<rparr>
     [Emplace 8, Erase 0x20000, Emplace 9] = 2 \<and>
   contains (one_slot_pool 0x30000 (9::u32)) 0x10000 = Inr False"
proof -
  define e :: "u32 freelist_t" where "e =
     \<lparr>num_objects = 0, max_objects = 1, cap_objects = 1, objects = [None],
      object_ids = [Some 0x10000],
      indices = [\<lparr>id_val = 0x10000, index = Some 0xFFFF, next_slot = 1\<rparr>],
      enqueue = 0\<rparr>"
  have "run (\<lambda>v. v) (init_pool 1) [Emplace 7] = Inr (one_slot_pool 0x10000 (7::u32))"
    by code_simp
  then have r: "reachable (\<lambda>v. v) 1 [Emplace 7] (one_slot_pool 0x10000 (7::u32))"
    by (simp add: reachable_def freelist_new_def)
  have er: "erase (one_slot_pool 0x10000 (7::u32)) 0x10000 = Inr e"
    unfolding e_def by code_simp
  have run: "run (\<lambda>v. v) e [Emplace 8, Erase 0x20000, Emplace 9] =
      Inr (one_slot_pool 0x30000 (9::u32))"
    unfolding e_def by code_simp
  have n: "reuses (\<lambda>v. v) (slot_of 0x10000) e [Emplace 8, Erase 0x20000, Emplace 9] = 2"
    unfolding e_def by code_simp
  then have lt: "reuses (\<lambda>v. v) (slot_of 0x10000) e [Emplace 8, Erase 0x20000, Emplace 9] < 65536"
    by simp
  from C5_stale_until_wrap [OF r er run lt]
  have "contains (one_slot_pool 0x30000 (9::u32)) 0x10000 = Inr False" by simp
  with r er run n show ?thesis
    unfolding e_def by (intro conjI)
qed

section \<open>Handles outside the slot table, and stale handles\<close>

lemma erase_then_emplace:
  assumes wf: "wf fl" and c: "contains fl h = Inr True"
  shows "\<exists>fl1 fl2. erase fl h = Inr fl1 \<and>
     emplace fl1 v = Inr (fl2, h + new_object_id_add) \<and>
     insert_fl obj_id fl1 v = Inr (fl2, obj_id v) \<and>
     slot_of (h + new_object_id_add) = slot_of h \<and>
     id_val (indices fl2 ! slot_of h) = h + new_object_id_add"
proof -
  from erase_succeeds [OF wf c] obtain fl1 where er: "erase fl h = Inr fl1" ..
  have wf1: "wf fl1" using wf c er by (rule wf_erase)
  from erase_count [OF wf c er]
  have p: "num_objects fl1 + 1 = num_objects fl" "max_objects fl1 = max_objects fl"
    "unat (enqueue fl1) = slot_of h" "id_val (indices fl1 ! slot_of h) = h"
    by simp_all
  have "num_objects fl1 < max_objects fl1"
    using p(1,2) wf_bounds [OF wf] by simp
  from emplace_succeeds [OF wf1 this, of v] obtain fl2 hn where
    em: "emplace fl1 v = Inr (fl2, hn)" by blast
  from emplace_props [OF wf1 em]
  have q: "hn = id_val (indices fl1 ! unat (enqueue fl1)) + new_object_id_add"
    "slot_of hn = unat (enqueue fl1)" "id_val (indices fl2 ! slot_of hn) = hn"
    by blast+
  from q(1) p(3,4) have hn: "hn = h + new_object_id_add" by simp
  have "insert_fl obj_id fl1 v = Inr (fl2, obj_id v)"
    using em by (simp add: insert_fl_emplace)
  with er em q(2,3) p(3) show ?thesis
    unfolding hn by (auto simp: slot_of_add)
qed

text \<open>C3 as stated fails: \<^verbatim>\<open>contains\<close> subscripts \<^verbatim>\<open>_indices\<close> with the low 16 bits of the
  handle and checks no bound. In a pool of capacity 1 the handle 1 denotes slot 1, outside
  the slot table.\<close>

theorem C3_counterexample:
  "contains (init_pool 1 :: u32 freelist_t) 1 = Inl OutOfBounds"
  by code_simp

text \<open>C3, amended. \<^verbatim>\<open>contains\<close> has no effect on the pool (it is a function of the pool
  and the handle). In every reachable pool of capacity \<open>c\<close>: for a handle whose low 16 bits
  are below \<open>c\<close> the slot-table access is in bounds, and the result is a definite boolean
  unless the handle is the bare number of a slot that was never allocated; for a handle
  whose low 16 bits are \<open>c\<close> or more the access is out of bounds; and for a handle that is
  erased, the result is false after the \<^verbatim>\<open>erase\<close> and after any further operations that
  reuse its slot fewer than 65536 times.\<close>

theorem C3_contains:
  assumes "reachable obj_id c ops fl"
  shows "(slot_of h < c \<longrightarrow>
           contains fl h \<noteq> Inl OutOfBounds \<and>
           (index (indices fl ! slot_of h) \<noteq> None \<or> h \<noteq> of_nat (slot_of h) \<longrightarrow>
              (\<exists>b. contains fl h = Inr b))) \<and>
         (c \<le> slot_of h \<longrightarrow> contains fl h = Inl OutOfBounds) \<and>
         (\<forall>fl0 xs fl'. erase fl h = Inr fl0 \<and> run obj_id fl0 xs = Inr fl' \<and>
              reuses obj_id (slot_of h) fl0 xs < 65536 \<longrightarrow> contains fl' h = Inr False)"
proof -
  have wf: "wf fl" using assms by (rule reachable_wf)
  have len: "length (indices fl) = c"
    using wf reachable_capacity [OF assms] by (simp add: wf_def)
  have a: "contains fl h \<noteq> Inl OutOfBounds" if "slot_of h < c"
    using that len by (simp add: contains_def Let_def split: option.splits)
  have b: "\<exists>b. contains fl h = Inr b"
    if s: "slot_of h < c" and n: "index (indices fl ! slot_of h) \<noteq> None \<or> h \<noteq> of_nat (slot_of h)"
  proof (cases "id_val (indices fl ! slot_of h) = h")
    case False
    with s len have "contains fl h = Inr False" by (simp add: contains_def)
    then show ?thesis ..
  next
    case True
    have "slot_ok fl (slot_of h)"
      using wf s reachable_capacity [OF assms] by (simp add: wf_def)
    with True n obtain ix where "index (indices fl ! slot_of h) = Some ix"
      by (cases "index (indices fl ! slot_of h)") (auto simp: slot_ok_def)
    with True s len show ?thesis by (simp add: contains_def)
  qed
  have d: "contains fl h = Inl OutOfBounds" if "c \<le> slot_of h"
    using that len by (simp add: contains_def)
  have e: "contains fl' h = Inr False"
    if "erase fl h = Inr fl0 \<and> run obj_id fl0 xs = Inr fl' \<and>
        reuses obj_id (slot_of h) fl0 xs < 65536" for fl0 xs fl'
    using erased_stays_stale [OF wf, of h fl0 obj_id xs fl'] that by simp
  from a b d e show ?thesis by blast
qed

theorem C3_contains_witness:
  "reachable (\<lambda>v. v) 1 [Emplace 7] (one_slot_pool 0x10000 (7::u32)) \<and>
   slot_of 0x10000 < 1 \<and> 0x10000 \<noteq> (of_nat (slot_of 0x10000) :: u32) \<and>
   (\<exists>b. contains (one_slot_pool 0x10000 (7::u32)) 0x10000 = Inr b) \<and>
   1 \<le> slot_of 0x10001 \<and>
   contains (one_slot_pool 0x10000 (7::u32)) 0x10001 = Inl OutOfBounds \<and>
   erase (one_slot_pool 0x10000 (7::u32)) 0x10000 =
     Inr \<lparr>num_objects = 0, max_objects = 1, cap_objects = 1, objects = [None],
          object_ids = [Some 0x10000],
          indices = [\<lparr>id_val = 0x10000, index = Some 0xFFFF, next_slot = 1\<rparr>],
          enqueue = 0\<rparr> \<and>
   run (\<lambda>v. v)
     \<lparr>num_objects = 0, max_objects = 1, cap_objects = 1, objects = [None],
      object_ids = [Some 0x10000],
      indices = [\<lparr>id_val = 0x10000, index = Some 0xFFFF, next_slot = 1\<rparr>],
      enqueue = 0\<rparr> [Emplace 8] = Inr (one_slot_pool 0x20000 (8::u32)) \<and>
   reuses (\<lambda>v. v) (slot_of 0x10000)
     \<lparr>num_objects = 0, max_objects = 1, cap_objects = 1, objects = [None :: u32 option],
      object_ids = [Some 0x10000],
      indices = [\<lparr>id_val = 0x10000, index = Some 0xFFFF, next_slot = 1\<rparr>],
      enqueue = 0\<rparr> [Emplace 8] = 1 \<and>
   contains (one_slot_pool 0x20000 (8::u32)) 0x10000 = Inr False"
proof -
  define e :: "u32 freelist_t" where "e =
     \<lparr>num_objects = 0, max_objects = 1, cap_objects = 1, objects = [None],
      object_ids = [Some 0x10000],
      indices = [\<lparr>id_val = 0x10000, index = Some 0xFFFF, next_slot = 1\<rparr>],
      enqueue = 0\<rparr>"
  have "run (\<lambda>v. v) (init_pool 1) [Emplace 7] = Inr (one_slot_pool 0x10000 (7::u32))"
    by code_simp
  then have r: "reachable (\<lambda>v. v) 1 [Emplace 7] (one_slot_pool 0x10000 (7::u32))"
    by (simp add: reachable_def freelist_new_def)
  have s0: "slot_of 0x10000 = 0" and s1: "slot_of 0x10001 = 1"
    by code_simp+
  have er: "erase (one_slot_pool 0x10000 (7::u32)) 0x10000 = Inr e"
    unfolding e_def by code_simp
  have run: "run (\<lambda>v. v) e [Emplace 8] = Inr (one_slot_pool 0x20000 (8::u32))"
    unfolding e_def by code_simp
  have n: "reuses (\<lambda>v. v) (slot_of 0x10000) e [Emplace 8] = 1"
    unfolding e_def by code_simp
  have h1: "slot_of 0x10000 < 1" "0x10000 \<noteq> (of_nat (slot_of 0x10000) :: u32)"
    by (simp_all add: s0)
  have h2: "1 \<le> slot_of 0x10001"
    by (simp add: s1)
  from C3_contains [OF r, of "0x10000"] h1
  have c1: "\<exists>b. contains (one_slot_pool 0x10000 (7::u32)) 0x10000 = Inr b"
    by blast
  from C3_contains [OF r, of "0x10001"] h2
  have c2: "contains (one_slot_pool 0x10000 (7::u32)) 0x10001 = Inl OutOfBounds"
    by blast
  have lt: "reuses (\<lambda>v. v) (slot_of 0x10000) e [Emplace 8] < 65536"
    by (simp only: n)
  from C3_contains [OF r, of "0x10000"] er run lt
  have c3: "contains (one_slot_pool 0x20000 (8::u32)) 0x10000 = Inr False"
    by blast
  from r h1 c1 h2 c2 er run n c3 show ?thesis
    unfolding e_def by (intro conjI)
qed

section \<open>Reuse of a freed slot\<close>

text \<open>C10 at a pool of capacity 1 whose values are their own \<^verbatim>\<open>id\<close> member. The handle
  \<open>0x10000\<close> is erased; its slot 0 heads the free list and keeps the id \<open>0x10000\<close>. The
  next \<^verbatim>\<open>emplace\<close> takes slot 0 and returns \<open>0x20000\<close>, the previous id plus \<open>0x10000\<close>.
  The next \<^verbatim>\<open>insert\<close> takes the same slot and leaves the same pool, but returns the
  \<^verbatim>\<open>id\<close> member of the inserted value, 7: neither the low 16 bits of the erased handle nor
  the previous id plus \<open>0x10000\<close>.\<close>

theorem C10_insert_after_erase:
  "erase (one_slot_pool 0x10000 (5::u32)) 0x10000 =
     Inr \<lparr>num_objects = 0, max_objects = 1, cap_objects = 1, objects = [None],
          object_ids = [Some 0x10000],
          indices = [\<lparr>id_val = 0x10000, index = Some 0xFFFF, next_slot = 1\<rparr>],
          enqueue = 0\<rparr> \<and>
   emplace \<lparr>num_objects = 0, max_objects = 1, cap_objects = 1, objects = [None],
          object_ids = [Some 0x10000],
          indices = [\<lparr>id_val = 0x10000, index = Some 0xFFFF, next_slot = 1\<rparr>],
          enqueue = 0\<rparr> (7::u32) = Inr (one_slot_pool 0x20000 7, 0x20000) \<and>
   insert_fl (\<lambda>v. v) \<lparr>num_objects = 0, max_objects = 1, cap_objects = 1, objects = [None],
          object_ids = [Some 0x10000],
          indices = [\<lparr>id_val = 0x10000, index = Some 0xFFFF, next_slot = 1\<rparr>],
          enqueue = 0\<rparr> (7::u32) = Inr (one_slot_pool 0x20000 7, 7) \<and>
   slot_of 7 = 7 \<and> slot_of 0x10000 = 0"
  by code_simp

section \<open>The slots of a fresh pool\<close>

text \<open>C2 at a fresh pool of capacity 1. The constructor writes \<^verbatim>\<open>id\<close> and \<^verbatim>\<open>next\<close> of
  each slot and never \<^verbatim>\<open>index\<close>: the dense position of the free slot 0 is indeterminate,
  not the tombstone, and \<^verbatim>\<open>contains(0)\<close> reads it.\<close>

theorem C2_fresh_slot_index:
  "(freelist_new 1 :: error + u32 freelist_t) = Inr (init_pool 1) \<and>
   indices (init_pool 1 :: u32 freelist_t) = [\<lparr>id_val = 0, index = None, next_slot = 1\<rparr>] \<and>
   index (indices (init_pool 1 :: u32 freelist_t) ! 0) \<noteq> Some tombstone \<and>
   contains (init_pool 1 :: u32 freelist_t) 0 = Inl Indeterminate"
proof -
  have "(freelist_new 1 :: error + u32 freelist_t) = Inr (init_pool 1)"
    by (simp add: freelist_new_def)
  moreover have "indices (init_pool 1 :: u32 freelist_t) =
      [\<lparr>id_val = 0, index = None, next_slot = 1\<rparr>]"
    by code_simp
  moreover have "index (indices (init_pool 1 :: u32 freelist_t) ! 0) \<noteq> Some tombstone"
    by code_simp
  moreover have "contains (init_pool 1 :: u32 freelist_t) 0 = Inl Indeterminate"
    by code_simp
  ultimately show ?thesis by (intro conjI)
qed

end
